theory Spec2Isabelle
  imports Main "HOL-Library.AList"
begin

section \<open>Python values\<close>

text \<open>
  A Python \<^verbatim>\<open>bytes\<close> value is a list of 8-bit characters, so the literal
  \<^verbatim>\<open>b"blob 12\x00"\<close> is \<open>''blob 12'' @ [CHR 0x00]\<close>. A Python \<^verbatim>\<open>str\<close> is the list
  of its Unicode code points; \<open>ustr\<close> embeds an ASCII literal. Indices are Python's
  unbounded integers, since \<^verbatim>\<open>find\<close> answers \<^verbatim>\<open>-1\<close> and the code slices with it.
\<close>

type_synonym bytes = string
type_synonym str = "nat list"

definition ustr :: "string \<Rightarrow> str" where
  "ustr s = map of_char s"

datatype error =
    FileNotFoundError str      \<comment> \<open>\<^verbatim>\<open>raise FileNotFoundError(name)\<close>, or \<^verbatim>\<open>open\<close> on a missing file\<close>
  | AmbiguousPrefix str nat    \<comment> \<open>\<^verbatim>\<open>ValueError("Ambiguous prefix: {name} matches {n} objects")\<close>\<close>
  | TypeMismatch str str       \<comment> \<open>\<^verbatim>\<open>ValueError("expected object type {}, got {}")\<close>\<close>
  | UnexpectedMode str         \<comment> \<open>\<^verbatim>\<open>ValueError("unexpected mode {!r}")\<close>\<close>
  | UnpackError                \<comment> \<open>\<^verbatim>\<open>ValueError\<close>: not enough values to unpack\<close>
  | InvalidLiteral bytes       \<comment> \<open>\<^verbatim>\<open>ValueError\<close>: invalid literal for int() with base 8\<close>
  | UnicodeDecodeError
  | UnicodeEncodeError
  | ZlibError                  \<comment> \<open>\<^verbatim>\<open>zlib.error\<close>\<close>
  | UnhandledType str          \<comment> \<open>\<^verbatim>\<open>AssertionError("unhandled object type ...")\<close>\<close>
  | FileExistsError            \<comment> \<open>\<^verbatim>\<open>os.makedirs\<close> on a path that is a regular file\<close>
  | OverflowError              \<comment> \<open>\<^verbatim>\<open>stat.S_ISDIR\<close> on a mode that is no \<^verbatim>\<open>mode_t\<close>\<close>

subsection \<open>Slices and searches\<close>

text \<open>
  \<open>clip n i\<close> is the position a slice bound \<open>i\<close> denotes in a sequence of length
  \<open>n\<close>: a negative bound counts from the end, and every bound is clamped to \<open>0..n\<close>.
\<close>

definition clip :: "nat \<Rightarrow> int \<Rightarrow> nat" where
  "clip n i = (if i < 0 then nat (int n + i) else min n (nat i))"

definition slice :: "'a list \<Rightarrow> int \<Rightarrow> int \<Rightarrow> 'a list" where
  "slice xs lo hi = take (clip (length xs) hi - clip (length xs) lo) (drop (clip (length xs) lo) xs)"

definition slice_to :: "'a list \<Rightarrow> int \<Rightarrow> 'a list" where
  "slice_to xs hi = take (clip (length xs) hi) xs"

definition slice_from :: "'a list \<Rightarrow> int \<Rightarrow> 'a list" where
  "slice_from xs lo = drop (clip (length xs) lo) xs"

fun index_of :: "'a \<Rightarrow> 'a list \<Rightarrow> nat option" where
  "index_of c [] = None"
| "index_of c (x # xs) = (if x = c then Some 0 else map_option Suc (index_of c xs))"

text \<open>\<^verbatim>\<open>data.find(c, start)\<close> for a one-byte \<open>c\<close>: the first index at or after \<open>start\<close>, else -1.\<close>

definition find_byte :: "'a list \<Rightarrow> 'a \<Rightarrow> int \<Rightarrow> int" where
  "find_byte xs c start =
     (case index_of c (drop (clip (length xs) start) xs) of
        None \<Rightarrow> - 1
      | Some p \<Rightarrow> int (clip (length xs) start + p))"

text \<open>\<^verbatim>\<open>header.split(c, 1)\<close>: one part when \<open>c\<close> does not occur, otherwise two.\<close>

definition split1 :: "'a list \<Rightarrow> 'a \<Rightarrow> 'a list list" where
  "split1 xs c =
     (case index_of c xs of
        None \<Rightarrow> [xs]
      | Some p \<Rightarrow> [take p xs, drop (Suc p) xs])"

definition startswith :: "'a list \<Rightarrow> 'a list \<Rightarrow> bool" where
  "startswith s p = (take (length p) s = p)"

subsection \<open>Text\<close>

text \<open>\<^verbatim>\<open>str(n)\<close> for a length \<open>n\<close>: its decimal digits.\<close>

fun decimal :: "nat \<Rightarrow> str" where
  "decimal n = (if n < 10 then [48 + n] else decimal (n div 10) @ [48 + n mod 10])"

declare decimal.simps [simp del]

text \<open>\<^verbatim>\<open>bytes.hex()\<close>: two lowercase hexadecimal digits for each byte.\<close>

definition hex_digit :: "nat \<Rightarrow> nat" where
  "hex_digit d = (if d < 10 then 48 + d else 87 + d)"

definition hex :: "bytes \<Rightarrow> str" where
  "hex bs = concat (map (\<lambda>b. [hex_digit (of_char b div 16), hex_digit (of_char b mod 16)]) bs)"

text \<open>
  \<^verbatim>\<open>str.lower()\<close> on ASCII text, which is what object names are: the letters A to Z
  move to a to z and every other code point stays. (Beyond ASCII, Python maps more
  letters; the names that \<^verbatim>\<open>find_object\<close> is given are hexadecimal.)
\<close>

definition lower :: "str \<Rightarrow> str" where
  "lower s = map (\<lambda>c. if 65 \<le> c \<and> c \<le> 90 then c + 32 else c) s"

text \<open>
  \<^verbatim>\<open>s.encode("utf-8")\<close>. A surrogate code point has no encoding and raises
  \<^verbatim>\<open>UnicodeEncodeError\<close>; a number beyond U+10FFFF is not a code point of any \<^verbatim>\<open>str\<close>.
\<close>

definition utf8_char :: "nat \<Rightarrow> bytes option" where
  "utf8_char c =
     (if c < 0x80 then Some [char_of c]
      else if c < 0x800 then Some [char_of (0xC0 + c div 64), char_of (0x80 + c mod 64)]
      else if 0xD800 \<le> c \<and> c < 0xE000 then None
      else if c < 0x10000 then
        Some [char_of (0xE0 + c div 4096), char_of (0x80 + c div 64 mod 64),
              char_of (0x80 + c mod 64)]
      else if c < 0x110000 then
        Some [char_of (0xF0 + c div 262144), char_of (0x80 + c div 4096 mod 64),
              char_of (0x80 + c div 64 mod 64), char_of (0x80 + c mod 64)]
      else None)"

fun utf8_encode :: "str \<Rightarrow> error + bytes" where
  "utf8_encode [] = Inr []"
| "utf8_encode (c # cs) =
     (case utf8_char c of
        None \<Rightarrow> Inl UnicodeEncodeError
      | Some bs \<Rightarrow> (case utf8_encode cs of Inl e \<Rightarrow> Inl e | Inr r \<Rightarrow> Inr (bs @ r)))"

text \<open>
  \<^verbatim>\<open>b.decode("utf-8")\<close>, strict: the well-formed byte sequences of the Unicode
  standard (no overlong forms, no surrogates, nothing beyond U+10FFFF), anything else
  raises \<^verbatim>\<open>UnicodeDecodeError\<close>. \<open>utf8_points\<close> works on the byte values.
\<close>

definition cont :: "nat \<Rightarrow> bool" where
  "cont b = (0x80 \<le> b \<and> b < 0xC0)"

fun utf8_points :: "nat list \<Rightarrow> str option" where
  "utf8_points [] = Some []"
| "utf8_points (a # bs) =
     (if a < 0x80 then map_option ((#) a) (utf8_points bs)
      else if 0xC2 \<le> a \<and> a < 0xE0 then
        (case bs of
           b # r \<Rightarrow>
             if cont b then map_option ((#) ((a - 0xC0) * 64 + (b - 0x80))) (utf8_points r)
             else None
         | _ \<Rightarrow> None)
      else if 0xE0 \<le> a \<and> a < 0xF0 then
        (case bs of
           b # c # r \<Rightarrow>
             if (if a = 0xE0 then 0xA0 else 0x80) \<le> b \<and> b < (if a = 0xED then 0xA0 else 0xC0)
                \<and> cont c
             then map_option ((#) ((a - 0xE0) * 4096 + (b - 0x80) * 64 + (c - 0x80)))
                    (utf8_points r)
             else None
         | _ \<Rightarrow> None)
      else if 0xF0 \<le> a \<and> a < 0xF5 then
        (case bs of
           b # c # d # r \<Rightarrow>
             if (if a = 0xF0 then 0x90 else 0x80) \<le> b \<and> b < (if a = 0xF4 then 0x90 else 0xC0)
                \<and> cont c \<and> cont d
             then map_option
                    ((#) ((a - 0xF0) * 262144 + (b - 0x80) * 4096 + (c - 0x80) * 64 + (d - 0x80)))
                    (utf8_points r)
             else None
         | _ \<Rightarrow> None)
      else None)"

definition utf8_decode :: "bytes \<Rightarrow> error + str" where
  "utf8_decode bs =
     (case utf8_points (map of_char bs) of
        None \<Rightarrow> Inl UnicodeDecodeError
      | Some s \<Rightarrow> Inr s)"

section \<open>Libraries and the object database\<close>

text \<open>
  \<^verbatim>\<open>hashlib.sha1\<close> and \<^verbatim>\<open>zlib\<close> are libraries outside the repository; the functions
  take them as a parameter. \<open>sha1_digest\<close> is \<^verbatim>\<open>hashlib.sha1(x).digest()\<close>, whose
  \<^verbatim>\<open>hexdigest()\<close> is \<open>hex\<close> of it; \<open>zlib_decompress\<close> answers \<open>None\<close> where
  \<^verbatim>\<open>zlib.decompress\<close> raises \<^verbatim>\<open>zlib.error\<close>. \<open>pylib_ok\<close> states the two facts about
  them that the proofs use: a SHA-1 digest has 20 bytes, and decompressing what was
  compressed gives it back.
\<close>

record pylib =
  sha1_digest :: "bytes \<Rightarrow> bytes"
  zlib_compress :: "bytes \<Rightarrow> bytes"
  zlib_decompress :: "bytes \<Rightarrow> bytes option"

definition pylib_ok :: "pylib \<Rightarrow> bool" where
  "pylib_ok L =
     ((\<forall>x. length (sha1_digest L x) = 20) \<and>
      (\<forall>x. zlib_decompress L (zlib_compress L x) = Some x))"

text \<open>
  The state is the directory \<^verbatim>\<open>objects\<close> of the git directory that \<^verbatim>\<open>_get_git_dir(repo)\<close>
  selects: a listing of named entries, each a regular file or a subdirectory with its
  own listing of files. \<^verbatim>\<open>os.listdir\<close> gives the names in listing order. A name is one
  path component: ASCII text without a path separator, and neither \<^verbatim>\<open>.\<close> nor \<^verbatim>\<open>..\<close>, as
  the hexadecimal names of objects and their prefixes are; \<^verbatim>\<open>os.path.join\<close> of such names
  is the path through the listings.
\<close>

datatype node = File bytes | Dir "(str \<times> bytes) list"

type_synonym objects_dir = "(str \<times> node) list"

definition listdir :: "(str \<times> 'a) list \<Rightarrow> str list" where
  "listdir entries = map fst entries"

text \<open>\<open>bucket fs d\<close> is the listing of \<^verbatim>\<open>objects/d\<close> when \<^verbatim>\<open>os.path.isdir\<close> holds of it.\<close>

definition bucket :: "objects_dir \<Rightarrow> str \<Rightarrow> (str \<times> bytes) list option" where
  "bucket fs d = (case map_of fs d of Some (Dir files) \<Rightarrow> Some files | _ \<Rightarrow> None)"

text \<open>\<open>lookup_file fs d f\<close> is the content of \<^verbatim>\<open>objects/d/f\<close>, if that file exists.\<close>

definition lookup_file :: "objects_dir \<Rightarrow> str \<Rightarrow> str \<Rightarrow> bytes option" where
  "lookup_file fs d f = (case bucket fs d of None \<Rightarrow> None | Some files \<Rightarrow> map_of files f)"

definition path_exists :: "objects_dir \<Rightarrow> str \<Rightarrow> str \<Rightarrow> bool" where
  "path_exists fs d f = (lookup_file fs d f \<noteq> None)"

text \<open>
  \<^verbatim>\<open>file_io.read_file(obj_path, mode="rb")\<close>, and the \<^verbatim>\<open>open\<close> of the fallback branch.
\<close>

definition read_file :: "objects_dir \<Rightarrow> str \<Rightarrow> str \<Rightarrow> error + bytes" where
  "read_file fs d f =
     (case lookup_file fs d f of
        None \<Rightarrow> Inl (FileNotFoundError (d @ ustr ''/'' @ f))
      | Some content \<Rightarrow> Inr content)"

text \<open>
  \<^verbatim>\<open>file_io.write_file(obj_path, compressed, mode="wb", make_dirs=True)\<close>, and the
  \<^verbatim>\<open>os.makedirs\<close> and \<^verbatim>\<open>open\<close> of the fallback branch: the subdirectory is created when
  it is missing, \<^verbatim>\<open>os.makedirs\<close> raises when its name is taken by a regular file, and
  the file is created or overwritten.
\<close>

definition write_file :: "str \<Rightarrow> str \<Rightarrow> bytes \<Rightarrow> objects_dir \<Rightarrow> error + objects_dir" where
  "write_file d f content fs =
     (case map_of fs d of
        None \<Rightarrow> Inr (fs @ [(d, Dir [(f, content)])])
      | Some (File _) \<Rightarrow> Inl FileExistsError
      | Some (Dir files) \<Rightarrow> Inr (AList.update d (Dir (AList.update f content files)) fs))"

section \<open>Writing an object: \<^verbatim>\<open>hash_object\<close>\<close>

datatype data = Bytes bytes | Str str

text \<open>Lines 64 to 67: a \<^verbatim>\<open>str\<close> is encoded, \<^verbatim>\<open>bytes\<close> are taken as they are.\<close>

fun data_bytes :: "data \<Rightarrow> error + bytes" where
  "data_bytes (Str s) = utf8_encode s"
| "data_bytes (Bytes b) = Inr b"

text \<open>Line 70: \<^verbatim>\<open>f"{obj_type} {len(data_bytes)}\0".encode("utf-8")\<close>.\<close>

definition header :: "str \<Rightarrow> bytes \<Rightarrow> error + bytes" where
  "header obj_type bs = utf8_encode (obj_type @ ustr '' '' @ decimal (length bs) @ [0])"

text \<open>Lines 72 to 75: the framed bytes and their name.\<close>

definition framed :: "data \<Rightarrow> str \<Rightarrow> error + bytes" where
  "framed d obj_type =
     (case data_bytes d of
        Inl e \<Rightarrow> Inl e
      | Inr bs \<Rightarrow> (case header obj_type bs of Inl e \<Rightarrow> Inl e | Inr h \<Rightarrow> Inr (h @ bs)))"

definition hexdigest :: "pylib \<Rightarrow> bytes \<Rightarrow> str" where
  "hexdigest L full = hex (sha1_digest L full)"

definition hash_object :: "pylib \<Rightarrow> data \<Rightarrow> str \<Rightarrow> objects_dir \<Rightarrow> error + str \<times> objects_dir" where
  "hash_object L d obj_type fs =
     (case framed d obj_type of
        Inl e \<Rightarrow> Inl e
      | Inr full \<Rightarrow>
          (let sha = hexdigest L full;
               compressed = zlib_compress L full
           in case write_file (take 2 sha) (drop 2 sha) compressed fs of
                Inl e \<Rightarrow> Inl e
              | Inr fs' \<Rightarrow> Inr (sha, fs')))"

section \<open>Resolving a name: \<^verbatim>\<open>find_object\<close>\<close>

text \<open>Lines 131 to 138: the scan of every subdirectory, for a name shorter than 2.\<close>

definition scan_all :: "str \<Rightarrow> objects_dir \<Rightarrow> str list" where
  "scan_all name fs =
     concat (map (\<lambda>d. case bucket fs d of
                         None \<Rightarrow> []
                       | Some files \<Rightarrow> map ((@) d) (filter (\<lambda>f. startswith (d @ f) name) (listdir files)))
                 (listdir fs))"

text \<open>Lines 141 to 146: the scan of one subdirectory.\<close>

definition scan_bucket :: "str \<Rightarrow> objects_dir \<Rightarrow> error + str list" where
  "scan_bucket name fs =
     (let dir_prefix = take 2 name; rest = drop 2 name
      in case bucket fs dir_prefix of
           None \<Rightarrow> Inl (FileNotFoundError name)
         | Some files \<Rightarrow> Inr (map ((@) dir_prefix) (filter (\<lambda>f. startswith f rest) (listdir files))))"

text \<open>Lines 129 to 146: the list \<^verbatim>\<open>matches\<close> of a name that is not 40 long.\<close>

definition find_matches :: "str \<Rightarrow> objects_dir \<Rightarrow> error + str list" where
  "find_matches name fs = (if length name < 2 then Inr (scan_all name fs) else scan_bucket name fs)"

text \<open>Lines 148 to 153.\<close>

definition select_match :: "str \<Rightarrow> str list \<Rightarrow> error + str" where
  "select_match name matches =
     (if matches = [] then Inl (FileNotFoundError name)
      else if length matches > 1 then Inl (AmbiguousPrefix name (length matches))
      else Inr (matches ! 0))"

definition find_object :: "str \<Rightarrow> objects_dir \<Rightarrow> error + str" where
  "find_object name0 fs =
     (let name = lower name0
      in if length name = 40 then
           (if path_exists fs (take 2 name) (drop 2 name) then Inr name
            else Inl (FileNotFoundError name))
         else (case find_matches name fs of
                 Inl e \<Rightarrow> Inl e
               | Inr matches \<Rightarrow> select_match name matches))"

section \<open>Reading an object: \<^verbatim>\<open>read_object\<close>\<close>

text \<open>
  Lines 193 to 198, the decoding of the decompressed bytes. \<^verbatim>\<open>find\<close> answers -1 when
  there is no NUL byte, and the two slices are then taken with that index. The
  unpacking of \<^verbatim>\<open>header.split(b" ", 1)\<close> raises when there is one part only.
\<close>

definition parse_object :: "bytes \<Rightarrow> error + str \<times> bytes" where
  "parse_object decompressed =
     (let header_end = find_byte decompressed (CHR 0x00) 0;
          hdr = slice_to decompressed header_end;
          dat = slice_from decompressed (header_end + 1)
      in case split1 hdr CHR '' '' of
           [obj_type, size_str] \<Rightarrow>
             (case utf8_decode obj_type of Inl e \<Rightarrow> Inl e | Inr t \<Rightarrow> Inr (t, dat))
         | _ \<Rightarrow> Inl UnpackError)"

definition read_object :: "pylib \<Rightarrow> str \<Rightarrow> objects_dir \<Rightarrow> error + str \<times> bytes" where
  "read_object L sha fs =
     (case find_object sha fs of
        Inl e \<Rightarrow> Inl e
      | Inr full \<Rightarrow>
          (case read_file fs (take 2 full) (drop 2 full) of
             Inl e \<Rightarrow> Inl e
           | Inr raw \<Rightarrow>
               (case zlib_decompress L raw of
                  None \<Rightarrow> Inl ZlibError
                | Some decompressed \<Rightarrow> parse_object decompressed)))"

section \<open>Decoding a tree: \<^verbatim>\<open>read_tree\<close>\<close>

text \<open>
  \<^verbatim>\<open>int(mode_str, 8)\<close> on bytes, after CPython's grammar of an integer literal in base
  8: optional white space, an optional sign, an optional prefix \<^verbatim>\<open>0o\<close> or \<^verbatim>\<open>0O\<close> that
  one underscore may follow, octal digits with single underscores between them, and
  optional white space up to the end. Anything else raises \<^verbatim>\<open>ValueError\<close>.
\<close>

definition is_space :: "char \<Rightarrow> bool" where
  "is_space c = (c \<in> set [CHR 0x09, CHR 0x0A, CHR 0x0B, CHR 0x0C, CHR 0x0D, CHR '' ''])"

definition oct_digit :: "char \<Rightarrow> bool" where
  "oct_digit c = (48 \<le> (of_char c :: nat) \<and> (of_char c :: nat) < 56)"

definition oct_value :: "bytes \<Rightarrow> int" where
  "oct_value ds = foldl (\<lambda>a c. 8 * a + (int (of_char c) - 48)) 0 ds"

fun double_underscore :: "bytes \<Rightarrow> bool" where
  "double_underscore (a # b # r) = ((a = CHR ''_'' \<and> b = CHR ''_'') \<or> double_underscore (b # r))"
| "double_underscore _ = False"

definition strip_sign :: "bytes \<Rightarrow> bool \<times> bytes" where
  "strip_sign s =
     (case s of
        [] \<Rightarrow> (False, s)
      | c # r \<Rightarrow> if c = CHR ''+'' then (False, r) else if c = CHR ''-'' then (True, r) else (False, s))"

definition strip_prefix :: "bytes \<Rightarrow> bytes" where
  "strip_prefix s =
     (case s of
        a # b # r \<Rightarrow>
          if a = CHR ''0'' \<and> (b = CHR ''o'' \<or> b = CHR ''O'') then
            (case r of [] \<Rightarrow> r | u # r' \<Rightarrow> if u = CHR ''_'' then r' else r)
          else s
      | _ \<Rightarrow> s)"

definition int_base8 :: "bytes \<Rightarrow> error + int" where
  "int_base8 s =
     (let (neg, s2) = strip_sign (dropWhile is_space s);
          s3 = strip_prefix s2;
          body = takeWhile (\<lambda>c. oct_digit c \<or> c = CHR ''_'') s3;
          rest = dropWhile (\<lambda>c. oct_digit c \<or> c = CHR ''_'') s3
      in if body = [] \<or> hd body = CHR ''_'' \<or> last body = CHR ''_'' \<or> double_underscore body
            \<or> dropWhile is_space rest \<noteq> []
         then Inl (InvalidLiteral s)
         else Inr ((if neg then - 1 else 1) * oct_value (filter oct_digit body)))"

text \<open>
  One turn of the loop of \<^verbatim>\<open>read_tree\<close> (lines 275 to 291) with the cursor at \<open>i\<close>:
  the loop ends (\<open>Stop\<close>: the condition fails, or \<^verbatim>\<open>break\<close>), an exception leaves it
  (\<open>Raise\<close>), or it yields an entry and moves the cursor (\<open>Yield\<close>). The name is
  decoded before the mode is parsed, as in the source.
\<close>

type_synonym entry = "int \<times> str \<times> str"

datatype step = Stop | Raise error | Yield entry int

definition tree_step :: "bytes \<Rightarrow> int \<Rightarrow> step" where
  "tree_step dat i =
     (if i < int (length dat) then
        (let j = find_byte dat CHR '' '' i
         in if j = - 1 then Stop
            else
              (let mode_str = slice dat i j;
                   k = find_byte dat (CHR 0x00) (j + 1)
               in case utf8_decode (slice dat (j + 1) k) of
                    Inl e \<Rightarrow> Raise e
                  | Inr name \<Rightarrow>
                      (let sha_hex = hex (slice dat (k + 1) (k + 21))
                       in case int_base8 mode_str of
                            Inl e \<Rightarrow> Raise e
                          | Inr mode_int \<Rightarrow> Yield (mode_int, name, sha_hex) (k + 21))))
      else Stop)"

text \<open>
  The generator, run to its end: the entries it yields, and the exception that ended
  it if one did. The loop need not end (when \<^verbatim>\<open>find\<close> answers -1 for the NUL byte the
  cursor goes back to 20), and the result is then \<open>None\<close>.
\<close>

partial_function (option) read_tree_from :: "bytes \<Rightarrow> int \<Rightarrow> (entry list \<times> error option) option" where
  "read_tree_from dat i =
     (case tree_step dat i of
        Stop \<Rightarrow> Some ([], None)
      | Raise e \<Rightarrow> Some ([], Some e)
      | Yield ent i' \<Rightarrow>
          Option.bind (read_tree_from dat i') (\<lambda>r. Some (ent # fst r, snd r)))"

definition read_tree :: "bytes \<Rightarrow> (entry list \<times> error option) option" where
  "read_tree dat = read_tree_from dat 0"

text \<open>
  The format of the docstring of \<^verbatim>\<open>read_tree\<close>, for stating what the decoder does on
  well-formed entries: mode, space, path, NUL, and the 20 bytes of the SHA-1.
\<close>

definition entry_bytes :: "bytes \<times> bytes \<times> bytes \<Rightarrow> bytes" where
  "entry_bytes e = (case e of (m, n, s) \<Rightarrow> m @ '' '' @ n @ [CHR 0x00] @ s)"

definition tree_bytes :: "(bytes \<times> bytes \<times> bytes) list \<Rightarrow> bytes" where
  "tree_bytes es = concat (map entry_bytes es)"

section \<open>Printing an object: \<^verbatim>\<open>cat_file\<close>\<close>

text \<open>
  \<^verbatim>\<open>stat.S_ISDIR(mode)\<close>, that is \<^verbatim>\<open>(mode & 0o170000) == 0o040000\<close>. The function of
  the C module converts its argument to a \<^verbatim>\<open>mode_t\<close> of 32 bits first and raises
  \<^verbatim>\<open>OverflowError\<close> for a negative mode and for one of 2^32 or more.
\<close>

definition S_ISDIR :: "int \<Rightarrow> error + bool" where
  "S_ISDIR mode =
     (if mode < 0 \<or> 4294967296 \<le> mode then Inl OverflowError
      else Inr (and mode 61440 = 16384))"

text \<open>\<^verbatim>\<open>"{:06o}".format(n)\<close>: octal digits, zero-padded to six characters, sign included.\<close>

fun octal :: "nat \<Rightarrow> str" where
  "octal n = (if n < 8 then [48 + n] else octal (n div 8) @ [48 + n mod 8])"

declare octal.simps [simp del]

definition zero_pad :: "nat \<Rightarrow> str \<Rightarrow> str" where
  "zero_pad w s = replicate (w - length s) 48 @ s"

definition format_06o :: "int \<Rightarrow> str" where
  "format_06o n = (if n < 0 then 45 # zero_pad 5 (octal (nat (- n))) else zero_pad 6 (octal (nat n)))"

text \<open>
  Lines 249 and 250: \<^verbatim>\<open>type_str\<close>, and then
  \<^verbatim>\<open>"{:06o} {} {}\t{}".format(mode_int, type_str, sha1, path)\<close>.
\<close>

definition entry_line :: "entry \<Rightarrow> error + str" where
  "entry_line e =
     (case e of (mode_int, path, sha1) \<Rightarrow>
        (case S_ISDIR mode_int of
           Inl x \<Rightarrow> Inl x
         | Inr isdir \<Rightarrow>
             Inr (format_06o mode_int @ ustr '' ''
                    @ (if isdir then ustr ''tree'' else ustr ''blob'')
                    @ ustr '' '' @ sha1 @ [9] @ path)))"

text \<open>
  The outcome of a call that writes to standard output: the bytes written, and the
  exception that ended the call if one did. \<^verbatim>\<open>print\<close> writes the text and a newline,
  in UTF-8.
\<close>

type_synonym outcome = "bytes \<times> error option"

fun print_lines :: "str list \<Rightarrow> outcome" where
  "print_lines [] = ([], None)"
| "print_lines (l # ls) =
     (case utf8_encode (l @ [10]) of
        Inl e \<Rightarrow> ([], Some e)
      | Inr b \<Rightarrow> (b @ fst (print_lines ls), snd (print_lines ls)))"

text \<open>
  Lines 248 to 251, the loop over the generator with the cursor at \<open>i\<close>: each entry is
  printed as it is yielded, so the lines of the entries before an exception are on the
  output, and an exception in the body of the loop ends a listing that would not end
  by itself. The result is \<open>None\<close> when the loop does not end.
\<close>

partial_function (option) print_tree_from :: "bytes \<Rightarrow> int \<Rightarrow> outcome option" where
  "print_tree_from dat i =
     (case tree_step dat i of
        Stop \<Rightarrow> Some ([], None)
      | Raise e \<Rightarrow> Some ([], Some e)
      | Yield ent i' \<Rightarrow>
          (case entry_line ent of
             Inl x \<Rightarrow> Some ([], Some x)
           | Inr l \<Rightarrow>
               (case utf8_encode (l @ [10]) of
                  Inl x \<Rightarrow> Some ([], Some x)
                | Inr b \<Rightarrow>
                    Option.bind (print_tree_from dat i') (\<lambda>r. Some (b @ fst r, snd r)))))"

text \<open>The result is \<open>None\<close> when the call does not return (an endless tree listing).\<close>

definition cat_file :: "pylib \<Rightarrow> str \<Rightarrow> str \<Rightarrow> objects_dir \<Rightarrow> outcome option" where
  "cat_file L mode sha fs =
     (case read_object L sha fs of
        Inl e \<Rightarrow> Some ([], Some e)
      | Inr (obj_type, dat) \<Rightarrow>
          if mode \<in> set [ustr ''commit'', ustr ''tree'', ustr ''blob''] then
            (if obj_type \<noteq> mode then Some ([], Some (TypeMismatch mode obj_type))
             else Some (dat, None))
          else if mode \<in> set [ustr ''-s'', ustr ''--size'', ustr ''size''] then
            Some (print_lines [decimal (length dat)])
          else if mode \<in> set [ustr ''-t'', ustr ''--type'', ustr ''type''] then
            Some (print_lines [obj_type])
          else if mode \<in> set [ustr ''-p'', ustr ''--pretty'', ustr ''pretty''] then
            (if obj_type \<in> set [ustr ''commit'', ustr ''blob''] then Some (dat, None)
             else if obj_type = ustr ''tree'' then print_tree_from dat 0
             else Some ([], Some (UnhandledType obj_type)))
          else Some ([], Some (UnexpectedMode mode)))"

section \<open>The vocabulary of the specification\<close>

text \<open>The three kinds of object, as the byte strings of their tags.\<close>

definition kind_tags :: "string set" where
  "kind_tags = {''blob'', ''tree'', ''commit''}"

text \<open>The value of a string of decimal digits.\<close>

definition digits_value :: "str \<Rightarrow> nat" where
  "digits_value cs = foldl (\<lambda>a c. 10 * a + (c - 48)) 0 cs"

text \<open>A lowercase hexadecimal digit.\<close>

definition hexchar :: "nat \<Rightarrow> bool" where
  "hexchar c = ((48 \<le> c \<and> c \<le> 57) \<or> (97 \<le> c \<and> c \<le> 102))"

text \<open>
  A query made of hexadecimal digits, the letters in either case: the names and
  prefixes of objects that \<^verbatim>\<open>find_object\<close> is written for. On these \<open>lower\<close> is
  \<^verbatim>\<open>str.lower()\<close>, and \<^verbatim>\<open>os.path.join\<close> of \<^verbatim>\<open>name[:2]\<close> and \<^verbatim>\<open>name[2:]\<close> is the path
  through the listings.
\<close>

definition hex_query :: "str \<Rightarrow> bool" where
  "hex_query name = list_all (\<lambda>c. hexchar c \<or> (65 \<le> c \<and> c \<le> 70)) name"

text \<open>
  The stored identifiers: for each subdirectory, its name followed by the name of each
  of its files. \<open>matching fs q\<close> are those that start with \<open>q\<close>.
\<close>

definition stored_names :: "objects_dir \<Rightarrow> str list" where
  "stored_names fs =
     concat (map (\<lambda>d. case bucket fs d of
                         None \<Rightarrow> []
                       | Some files \<Rightarrow> map ((@) d) (listdir files))
                 (listdir fs))"

definition matching :: "objects_dir \<Rightarrow> str \<Rightarrow> str set" where
  "matching fs q = set (filter (\<lambda>x. startswith x q) (stored_names fs))"

text \<open>
  The layout of the object database: names are not repeated within a directory, and a
  subdirectory has a name of two characters and holds files with names of 38, all
  lowercase hexadecimal digits.
\<close>

definition bucket_layout :: "str \<Rightarrow> (str \<times> bytes) list \<Rightarrow> bool" where
  "bucket_layout d files =
     (length d = 2 \<and> list_all hexchar d \<and> distinct (listdir files) \<and>
      list_all (\<lambda>f. length f = 38 \<and> list_all hexchar f) (listdir files))"

definition store_layout :: "objects_dir \<Rightarrow> bool" where
  "store_layout fs =
     (distinct (listdir fs) \<and>
      list_all (\<lambda>d. case bucket fs d of None \<Rightarrow> True | Some files \<Rightarrow> bucket_layout d files)
        (listdir fs))"

text \<open>The modes that \<^verbatim>\<open>cat_file\<close> knows.\<close>

definition known_modes :: "str set" where
  "known_modes =
     ustr ` {''commit'', ''tree'', ''blob'', ''-s'', ''--size'', ''size'', ''-t'', ''--type'',
             ''type'', ''-p'', ''--pretty'', ''pretty''}"

text \<open>
  What decoding a list of entries comes to, each given by the bytes of its mode, of its
  name and of its SHA-1: the entries in order, up to the first whose name is not UTF-8
  or whose mode is not an octal literal.
\<close>

fun entries_result :: "(bytes \<times> bytes \<times> bytes) list \<Rightarrow> entry list \<times> error option" where
  "entries_result [] = ([], None)"
| "entries_result ((m, n, s) # es) =
     (case utf8_decode n of
        Inl e \<Rightarrow> ([], Some e)
      | Inr name \<Rightarrow>
          (case int_base8 m of
             Inl e \<Rightarrow> ([], Some e)
           | Inr mode_int \<Rightarrow>
               ((mode_int, name, hex s) # fst (entries_result es), snd (entries_result es))))"

text \<open>
  The shape of an entry in the format: no space in the mode, no NUL in the name, 20
  bytes of SHA-1.
\<close>

definition entry_shape :: "bytes \<times> bytes \<times> bytes \<Rightarrow> bool" where
  "entry_shape e = (case e of (m, n, s) \<Rightarrow> CHR '' '' \<notin> set m \<and> CHR 0x00 \<notin> set n \<and> length s = 20)"

section \<open>A library to run the model with\<close>

text \<open>
  Stand-ins with the two properties of \<open>pylib_ok\<close>, so that the functions can be
  evaluated on concrete inputs: a digest of 20 bytes made of the length and the byte
  sum of its input, and a compression that puts one byte in front.
\<close>

definition sample_digest :: "bytes \<Rightarrow> bytes" where
  "sample_digest x =
     replicate 19 (char_of (length x)) @ [char_of (sum_list (map of_char x :: nat list))]"

definition sample_lib :: pylib where
  "sample_lib =
     \<lparr>sha1_digest = sample_digest,
      zlib_compress = (\<lambda>x. CHR ''z'' # x),
      zlib_decompress =
        (\<lambda>raw. case raw of [] \<Rightarrow> None | c # x \<Rightarrow> if c = CHR ''z'' then Some x else None)\<rparr>"

text \<open>
  A state of the object database with two objects whose names differ in the last two
  digits only, beside a regular file.
\<close>

definition sample_store :: objects_dir where
  "sample_store =
     [(ustr ''info'', File ''x''),
      (ustr ''09'',
       Dir [(ustr ''090909090909090909090909090909090909c2'', ''zblob 2'' @ [CHR 0x00] @ ''hi''),
            (ustr ''090909090909090909090909090909090909d9'', ''zblob 2'' @ [CHR 0x00] @ ''yo'')])]"

section \<open>Facts about the Python values\<close>

lemma char_of_space: "char_of (32::nat) = CHR '' ''"
  by code_simp

lemma char_of_nul: "char_of (0::nat) = CHR 0x00"
  by code_simp

lemma of_char_bound: "of_char (b::char) < (256::nat)"
proof -
  have "(of_char b :: nat) mod 256 < 256" by simp
  then show ?thesis by (simp only: of_char_mod_256)
qed

lemma char_of_ustr: "map char_of (ustr s) = s"
  by (simp add: ustr_def comp_def)

lemma utf8_encode_ascii: "\<forall>c\<in>set s. c < 128 \<Longrightarrow> utf8_encode s = Inr (map char_of s)"
  by (induction s) (auto simp: utf8_char_def)

lemma utf8_points_ascii: "\<forall>c\<in>set s. c < 128 \<Longrightarrow> utf8_points s = Some s"
  by (induction s) auto

lemma utf8_decode_ascii:
  assumes "\<forall>c\<in>set s. c < 128"
  shows "utf8_decode (map char_of s) = Inr s"
proof -
  from assms have "map of_char (map char_of s :: string) = s"
    by (induction s) auto
  with assms show ?thesis
    by (simp add: utf8_decode_def utf8_points_ascii del: map_map)
qed

lemma decimal_digits: "c \<in> set (decimal n) \<Longrightarrow> 48 \<le> c \<and> c \<le> 57"
proof (induction n rule: decimal.induct)
  case (1 n)
  show ?case
  proof (cases "n < 10")
    case True
    with "1.prems" show ?thesis by (subst (asm) decimal.simps) simp
  next
    case False
    with "1.prems" have "c \<in> set (decimal (n div 10)) \<or> c = 48 + n mod 10"
      by (subst (asm) decimal.simps) auto
    with False "1.IH" show ?thesis by auto
  qed
qed

lemma decimal_value: "digits_value (decimal n) = n"
proof (induction n rule: decimal.induct)
  case (1 n)
  show ?case
  proof (cases "n < 10")
    case True
    then show ?thesis by (subst decimal.simps) (simp add: digits_value_def)
  next
    case False
    with "1.IH" have "digits_value (decimal (n div 10)) = n div 10" by simp
    with False show ?thesis by (subst decimal.simps) (simp add: digits_value_def)
  qed
qed

lemma decimal_ascii: "\<forall>c\<in>set (decimal n). c < 128"
  using decimal_digits by fastforce

lemma decimal_no_nul: "CHR 0x00 \<notin> set (map char_of (decimal n))"
proof
  assume "CHR 0x00 \<in> set (map char_of (decimal n))"
  then obtain c where c: "c \<in> set (decimal n)" "char_of c = CHR 0x00" by auto
  from decimal_digits [OF c(1)] have "c mod 256 = c" by simp
  moreover from c(2) have "of_char (char_of c :: char) = (0::nat)" by simp
  ultimately show False using decimal_digits [OF c(1)] by (simp only: of_char_of) simp
qed

lemma length_hex: "length (hex bs) = 2 * length bs"
  by (induction bs) (simp_all add: hex_def)

lemma hex_digit_hexchar: "d < 16 \<Longrightarrow> hexchar (hex_digit d)"
  by (auto simp: hexchar_def hex_digit_def)

lemma hex_hexchar: "c \<in> set (hex bs) \<Longrightarrow> hexchar c"
proof -
  have "of_char b div 16 < (16::nat)" for b :: char
    using of_char_bound [of b] by arith
  then show "c \<in> set (hex bs) \<Longrightarrow> hexchar c"
    by (auto simp: hex_def intro!: hex_digit_hexchar)
qed

lemma lower_id: "\<forall>c\<in>set s. \<not> (65 \<le> c \<and> c \<le> 90) \<Longrightarrow> lower s = s"
  by (induction s) (auto simp: lower_def)

lemma lower_hexchars: "\<forall>c\<in>set s. hexchar c \<Longrightarrow> lower s = s"
  by (rule lower_id) (auto simp: hexchar_def)

lemma lower_hex: "lower (hex bs) = hex bs"
  by (rule lower_hexchars) (auto dest: hex_hexchar)

lemma length_lower: "length (lower s) = length s"
  by (simp add: lower_def)

lemma index_of_None: "index_of c xs = None \<longleftrightarrow> c \<notin> set xs"
  by (induction xs) auto

lemma index_of_append: "c \<notin> set xs \<Longrightarrow> index_of c (xs @ c # ys) = Some (length xs)"
  by (induction xs) auto

lemma find_first: "c \<notin> set xs \<Longrightarrow> find_byte (xs @ c # ys) c 0 = int (length xs)"
  by (simp add: find_byte_def clip_def index_of_append)

lemma split1_first: "c \<notin> set xs \<Longrightarrow> split1 (xs @ c # ys) c = [xs, ys]"
  by (simp add: split1_def index_of_append)

lemma slice_to_append: "slice_to (xs @ ys) (int (length xs)) = xs"
  by (simp add: slice_to_def clip_def)

lemma slice_from_append: "slice_from (xs @ c # ys) (int (length xs) + 1) = ys"
  by (simp add: slice_from_def clip_def nat_add_distrib)

section \<open>Facts about the object database\<close>

lemma sample_lib_ok: "pylib_ok sample_lib"
  by (simp add: pylib_ok_def sample_lib_def sample_digest_def)

lemma write_file_bucket:
  "write_file d f c fs = Inr fs' \<Longrightarrow>
     bucket fs' d' =
       (if d' = d then Some (AList.update f c (case bucket fs d of None \<Rightarrow> [] | Some files \<Rightarrow> files))
        else bucket fs d')"
  by (auto simp: write_file_def bucket_def AList.update_conv'
           split: option.splits node.splits if_splits)

lemma write_file_lookup:
  "write_file d f c fs = Inr fs' \<Longrightarrow>
     lookup_file fs' d' f' = (if d' = d \<and> f' = f then Some c else lookup_file fs d' f')"
  by (auto simp: lookup_file_def write_file_bucket AList.update_conv' split: option.splits)

lemma path_exists_written: "write_file d f c fs = Inr fs' \<Longrightarrow> path_exists fs' d f"
  by (simp add: path_exists_def write_file_lookup)

section \<open>Writing and reading back\<close>

lemma kind_plain:
  assumes "k \<in> kind_tags"
  shows "\<forall>c\<in>set (ustr k). c < 128" "CHR 0x00 \<notin> set k" "CHR '' '' \<notin> set k"
  using assms by (auto simp: kind_tags_def ustr_def)

lemma header_ascii:
  assumes "\<forall>c\<in>set t. c < 128"
  shows "header t bs = Inr (map char_of t @ '' '' @ map char_of (decimal (length bs)) @ [CHR 0x00])"
proof -
  have "\<forall>c\<in>set (t @ ustr '' '' @ decimal (length bs) @ [0]). c < 128"
    using assms decimal_ascii by (auto simp: ustr_def)
  then show ?thesis
    unfolding header_def by (simp add: utf8_encode_ascii ustr_def char_of_space char_of_nul)
qed

lemma framed_kind:
  assumes "k \<in> kind_tags"
  shows "framed (Bytes p) (ustr k) =
           Inr (k @ '' '' @ map char_of (decimal (length p)) @ [CHR 0x00] @ p)"
  using kind_plain(1) [OF assms] by (simp add: framed_def header_ascii char_of_ustr)

lemma hash_object_Inr:
  assumes "hash_object L d t fs = Inr (sha, fs')"
  obtains full where "framed d t = Inr full" "sha = hexdigest L full"
    "write_file (take 2 sha) (drop 2 sha) (zlib_compress L full) fs = Inr fs'"
  using assms by (auto simp: hash_object_def Let_def split: sum.splits)

lemma length_hexdigest: "pylib_ok L \<Longrightarrow> length (hexdigest L full) = 40"
  by (simp add: hexdigest_def length_hex pylib_ok_def)

lemma parse_object_framed:
  assumes "CHR 0x00 \<notin> set k" "CHR 0x00 \<notin> set sz" "CHR '' '' \<notin> set k"
  shows "parse_object (k @ CHR '' '' # sz @ CHR 0x00 # p) =
           (case utf8_decode k of Inl e \<Rightarrow> Inl e | Inr t \<Rightarrow> Inr (t, p))"
proof -
  let ?h = "k @ CHR '' '' # sz"
  have nul: "CHR 0x00 \<notin> set ?h" using assms by simp
  have fr: "k @ CHR '' '' # sz @ CHR 0x00 # p = ?h @ CHR 0x00 # p" by simp
  have f: "find_byte (?h @ CHR 0x00 # p) (CHR 0x00) 0 = int (length ?h)"
    using nul by (rule find_first)
  have st: "slice_to (?h @ CHR 0x00 # p) (int (length ?h)) = ?h"
    by (rule slice_to_append)
  have sf: "slice_from (?h @ CHR 0x00 # p) (int (length ?h) + 1) = p"
    by (rule slice_from_append)
  have sp: "split1 ?h CHR '' '' = [k, sz]"
    using assms(3) by (rule split1_first)
  show ?thesis
    unfolding fr parse_object_def f Let_def st sf sp by simp
qed

lemma find_object_full:
  assumes "length name = 40" "lower name = name" "path_exists fs (take 2 name) (drop 2 name)"
  shows "find_object name fs = Inr name"
  using assms by (simp add: find_object_def Let_def)




text \<open>
  The write raises only when the name of the subdirectory is taken by a regular file.
\<close>

lemma hash_object_succeeds:
  assumes "k \<in> kind_tags"
    and "\<forall>c. map_of fs (take 2 (hexdigest L (k @ '' '' @ map char_of (decimal (length p)) @ [CHR 0x00] @ p))) \<noteq> Some (File c)"
  shows "\<exists>fs'. hash_object L (Bytes p) (ustr k) fs =
           Inr (hexdigest L (k @ '' '' @ map char_of (decimal (length p)) @ [CHR 0x00] @ p), fs')"
proof -
  let ?sha = "hexdigest L (k @ '' '' @ map char_of (decimal (length p)) @ [CHR 0x00] @ p)"
  have "\<exists>fs'. write_file (take 2 ?sha) (drop 2 ?sha) c fs = Inr fs'" for c
  proof (cases "map_of fs (take 2 ?sha)")
    case None
    then show ?thesis by (simp add: write_file_def)
  next
    case (Some n)
    with assms(2) show ?thesis by (cases n) (simp_all add: write_file_def)
  qed
  then obtain fs' where "write_file (take 2 ?sha) (drop 2 ?sha) (zlib_compress L
      (k @ '' '' @ map char_of (decimal (length p)) @ [CHR 0x00] @ p)) fs = Inr fs'"
    by blast
  then have "hash_object L (Bytes p) (ustr k) fs = Inr (?sha, fs')"
    unfolding hash_object_def framed_kind [OF assms(1)] by (simp add: Let_def)
  then show ?thesis ..
qed

subsection \<open>A sample run\<close>

lemma sample_framed:
  "framed (Bytes ''hi'') (ustr ''blob'') = Inr (''blob 2'' @ [CHR 0x00] @ ''hi'')"
  by (simp add: framed_def header_def ustr_def decimal.simps utf8_char_def char_of_eq_iff)

lemma sample_id:
  "hexdigest sample_lib (''blob 2'' @ [CHR 0x00] @ ''hi'') =
     ustr ''09090909090909090909090909090909090909c2''"
  by code_simp

lemma sample_name:
  "take 2 (ustr ''09090909090909090909090909090909090909c2'') = ustr ''09''"
  "drop 2 (ustr ''09090909090909090909090909090909090909c2'') =
     ustr ''090909090909090909090909090909090909c2''"
  by (simp_all add: ustr_def)

lemma sample_write:
  "hash_object sample_lib (Bytes ''hi'') (ustr ''blob'') [] =
     Inr (ustr ''09090909090909090909090909090909090909c2'',
          [(ustr ''09'', Dir [(ustr ''090909090909090909090909090909090909c2'',
                               ''zblob 2'' @ [CHR 0x00] @ ''hi'')])])"
  unfolding hash_object_def sample_framed sum.case Let_def sample_id sample_name
  by (simp add: write_file_def sample_lib_def)

lemma sample_keys:
  "ustr ''info'' \<noteq> ustr ''09''"
  "ustr ''aa'' \<noteq> ustr ''090909090909090909090909090909090909c2''"
  by (simp_all add: ustr_def)

lemma sample_write_other:
  "hash_object sample_lib (Bytes ''hi'') (ustr ''blob'')
       [(ustr ''info'', File ''x''), (ustr ''09'', Dir [(ustr ''aa'', ''old'')])] =
     Inr (ustr ''09090909090909090909090909090909090909c2'',
          [(ustr ''info'', File ''x''),
           (ustr ''09'', Dir [(ustr ''aa'', ''old''),
                              (ustr ''090909090909090909090909090909090909c2'',
                               ''zblob 2'' @ [CHR 0x00] @ ''hi'')])])"
  unfolding hash_object_def sample_framed sum.case Let_def sample_id sample_name
  using sample_keys by (simp add: write_file_def sample_lib_def)

lemma write_file_again:
  assumes "write_file d f c fs = Inr fs'"
  shows "write_file d f c fs' = Inr fs'"
proof (cases "map_of fs d")
  case None
  with assms have fs': "fs' = fs @ [(d, Dir [(f, c)])]" by (simp add: write_file_def)
  with None have m: "map_of fs' d = Some (Dir [(f, c)])" by (simp add: map_add_def)
  have "AList.update d (Dir [(f, c)]) fs' = fs'"
    using m by (rule AList.update_triv)
  with m show ?thesis by (simp add: write_file_def)
next
  case (Some n)
  show ?thesis
  proof (cases n)
    case (File x)
    with Some assms show ?thesis by (simp add: write_file_def)
  next
    case (Dir files)
    let ?files = "AList.update f c files"
    from Some Dir assms have fs': "fs' = AList.update d (Dir ?files) fs"
      by (simp add: write_file_def)
    then have m: "map_of fs' d = Some (Dir ?files)" by (simp add: AList.update_conv')
    have "map_of ?files f = Some c" by (simp add: AList.update_conv')
    then have "AList.update f c ?files = ?files" by (rule AList.update_triv)
    moreover have "AList.update d (Dir ?files) fs' = fs'" using m by (rule AList.update_triv)
    ultimately show ?thesis using m by (simp add: write_file_def)
  qed
qed

lemma blob_kind: "''blob'' \<in> kind_tags"
  by (simp add: kind_tags_def)

subsection \<open>The claims about writing and reading back\<close>

text \<open>
  Claim C6. For a kind \<open>k\<close> among blob, tree and commit and a payload \<open>p\<close>, the framed
  bytes are the tag, one space, the decimal digits of the length of \<open>p\<close>, one NUL byte
  and then \<open>p\<close>. The name that \<^verbatim>\<open>hash_object\<close> returns is the hexadecimal form of the
  SHA-1 digest of those bytes, 40 lowercase hexadecimal digits, and the compressed
  bytes are stored in the subdirectory named by its first 2 digits, in the file named
  by the other 38.
\<close>
theorem hash_object_encoding:
  assumes "pylib_ok L" and "k \<in> kind_tags"
    and "hash_object L (Bytes p) (ustr k) fs = Inr (sha, fs')"
  shows "framed (Bytes p) (ustr k) =
           Inr (k @ '' '' @ map char_of (decimal (length p)) @ [CHR 0x00] @ p)
       \<and> digits_value (decimal (length p)) = length p
       \<and> sha = hex (sha1_digest L (k @ '' '' @ map char_of (decimal (length p)) @ [CHR 0x00] @ p))
       \<and> length sha = 40 \<and> list_all hexchar sha
       \<and> length (take 2 sha) = 2 \<and> length (drop 2 sha) = 38
       \<and> lookup_file fs' (take 2 sha) (drop 2 sha) =
           Some (zlib_compress L (k @ '' '' @ map char_of (decimal (length p)) @ [CHR 0x00] @ p))"
proof -
  let ?full = "k @ '' '' @ map char_of (decimal (length p)) @ [CHR 0x00] @ p"
  have fr: "framed (Bytes p) (ustr k) = Inr ?full" using assms(2) by (rule framed_kind)
  from assms(3) obtain full where full: "framed (Bytes p) (ustr k) = Inr full"
    "sha = hexdigest L full"
    "write_file (take 2 sha) (drop 2 sha) (zlib_compress L full) fs = Inr fs'"
    by (rule hash_object_Inr)
  from fr full(1) have eq: "full = ?full" by simp
  have len: "length sha = 40" using assms(1) full(2) by (simp add: length_hexdigest)
  have hx: "list_all hexchar sha"
    using full(2) by (auto simp: hexdigest_def list_all_iff dest: hex_hexchar)
  have lk: "lookup_file fs' (take 2 sha) (drop 2 sha) = Some (zlib_compress L ?full)"
    using write_file_lookup [OF full(3)] eq by simp
  show ?thesis using fr decimal_value full(2) eq len hx lk by (simp add: hexdigest_def)
qed

text \<open>
  Claim C7. The name depends on the data and the kind only: two calls of
  \<^verbatim>\<open>hash_object\<close> on the same content, from any two states \<open>fs\<close> and \<open>gs\<close> of the object
  database, return the same name and leave the same bytes in the same place, the file
  \<^verbatim>\<open>sha[:2]/sha[2:]\<close>; no other file changes, and writing the content once more returns
  the name again and changes nothing.
\<close>
theorem hash_object_deterministic:
  assumes "hash_object L d t fs = Inr (sha, fs')"
    and "hash_object L d t gs = Inr (sha', gs')"
  shows "sha' = sha
       \<and> lookup_file fs' (take 2 sha) (drop 2 sha) \<noteq> None
       \<and> lookup_file gs' (take 2 sha) (drop 2 sha) = lookup_file fs' (take 2 sha) (drop 2 sha)
       \<and> (\<forall>a f. (a, f) \<noteq> (take 2 sha, drop 2 sha) \<longrightarrow>
             lookup_file fs' a f = lookup_file fs a f \<and> lookup_file gs' a f = lookup_file gs a f)
       \<and> hash_object L d t fs' = Inr (sha, fs')"
proof -
  from assms(1) obtain full where full: "framed d t = Inr full" "sha = hexdigest L full"
    "write_file (take 2 sha) (drop 2 sha) (zlib_compress L full) fs = Inr fs'"
    by (rule hash_object_Inr)
  from assms(2) obtain full' where full': "framed d t = Inr full'" "sha' = hexdigest L full'"
    "write_file (take 2 sha') (drop 2 sha') (zlib_compress L full') gs = Inr gs'"
    by (rule hash_object_Inr)
  from full(1) full'(1) have ff: "full' = full" by simp
  with full(2) full'(2) have s: "sha' = sha" by simp
  have again: "write_file (take 2 sha) (drop 2 sha) (zlib_compress L full) fs' = Inr fs'"
    using full(3) by (rule write_file_again)
  have "hash_object L d t fs' = Inr (sha, fs')"
    using full(1,2) again by (simp add: hash_object_def Let_def)
  then show ?thesis
    using s write_file_lookup [OF full(3)] write_file_lookup [OF full'(3)] ff
    by auto
qed


text \<open>
  Claim C10. Given a \<^verbatim>\<open>str\<close>, \<^verbatim>\<open>hash_object\<close> encodes it in UTF-8 and goes on as
  with those bytes: the name returned and the state left are the same (and where the
  text has no encoding, the call raises \<^verbatim>\<open>UnicodeEncodeError\<close>).
\<close>
theorem hash_object_str:
  "hash_object L (Str s) t fs =
     (case utf8_encode s of
        Inl e \<Rightarrow> Inl e
      | Inr b \<Rightarrow> hash_object L (Bytes b) t fs)"
  by (simp add: hash_object_def framed_def split: sum.splits)

lemma sample_euro: "utf8_encode [0x20AC] = Inr [CHR 0xE2, CHR 0x82, CHR 0xAC]"
  by (simp add: utf8_char_def char_of_eq_iff)

text \<open>
  Claim C1. For a kind \<open>k\<close> among blob, tree and commit and a payload \<open>p\<close>, reading the
  name that \<^verbatim>\<open>hash_object\<close> returned, in the state it left, gives back the kind and
  the payload, byte for byte and without the header.
\<close>
theorem read_after_write:
  assumes "pylib_ok L" and "k \<in> kind_tags"
    and "hash_object L (Bytes p) (ustr k) fs = Inr (sha, fs')"
  shows "read_object L sha fs' = Inr (ustr k, p)"
proof -
  let ?full = "k @ '' '' @ map char_of (decimal (length p)) @ [CHR 0x00] @ p"
  have fr: "framed (Bytes p) (ustr k) = Inr ?full" using assms(2) by (rule framed_kind)
  from assms(3) obtain full where full: "framed (Bytes p) (ustr k) = Inr full"
    "sha = hexdigest L full"
    "write_file (take 2 sha) (drop 2 sha) (zlib_compress L full) fs = Inr fs'"
    by (rule hash_object_Inr)
  from fr full(1) have eq: "full = ?full" by simp
  have "find_object sha fs' = Inr sha"
  proof (rule find_object_full)
    show "length sha = 40" using assms(1) full(2) by (simp add: length_hexdigest)
    show "lower sha = sha" using full(2) by (simp add: hexdigest_def lower_hex)
    show "path_exists fs' (take 2 sha) (drop 2 sha)" using full(3) by (rule path_exists_written)
  qed
  moreover have "read_file fs' (take 2 sha) (drop 2 sha) = Inr (zlib_compress L full)"
    using write_file_lookup [OF full(3)] by (simp add: read_file_def)
  moreover have "zlib_decompress L (zlib_compress L full) = Some full"
    using assms(1) by (simp add: pylib_ok_def)
  moreover have "parse_object full = Inr (ustr k, p)"
  proof -
    have "parse_object (k @ CHR '' '' # map char_of (decimal (length p)) @ CHR 0x00 # p) =
            (case utf8_decode k of Inl e \<Rightarrow> Inl e | Inr t \<Rightarrow> Inr (t, p))"
      using kind_plain(2) [OF assms(2)] decimal_no_nul kind_plain(3) [OF assms(2)]
      by (rule parse_object_framed)
    moreover have "utf8_decode k = Inr (ustr k)"
      using utf8_decode_ascii [OF kind_plain(1) [OF assms(2)]] by (simp add: char_of_ustr)
    ultimately show ?thesis using eq by simp
  qed
  ultimately show ?thesis by (simp add: read_object_def)
qed


theorem hash_object_encoding_witness:
  "pylib_ok sample_lib \<and> ''blob'' \<in> kind_tags
   \<and> hash_object sample_lib (Bytes ''hi'') (ustr ''blob'') [] =
       Inr (ustr ''09090909090909090909090909090909090909c2'',
            [(ustr ''09'', Dir [(ustr ''090909090909090909090909090909090909c2'',
                                 ''zblob 2'' @ [CHR 0x00] @ ''hi'')])])
   \<and> framed (Bytes ''hi'') (ustr ''blob'') = Inr (''blob 2'' @ [CHR 0x00] @ ''hi'')
   \<and> length (ustr ''09090909090909090909090909090909090909c2'') = 40"
proof -
  note t = hash_object_encoding [OF sample_lib_ok blob_kind sample_write]
  have d: "map char_of (decimal (length ''hi'')) = ''2''" by code_simp
  have f: "framed (Bytes ''hi'') (ustr ''blob'') = Inr (''blob 2'' @ [CHR 0x00] @ ''hi'')"
    using t [THEN conjunct1] by (simp only: d) simp
  have l: "length (ustr ''09090909090909090909090909090909090909c2'') = 40"
    using t by (elim conjE)
  show ?thesis
    using sample_lib_ok blob_kind sample_write f l by (intro conjI)
qed


theorem hash_object_deterministic_witness:
  "hash_object sample_lib (Bytes ''hi'') (ustr ''blob'') [] =
     Inr (ustr ''09090909090909090909090909090909090909c2'',
          [(ustr ''09'', Dir [(ustr ''090909090909090909090909090909090909c2'',
                               ''zblob 2'' @ [CHR 0x00] @ ''hi'')])])
   \<and> hash_object sample_lib (Bytes ''hi'') (ustr ''blob'')
         [(ustr ''info'', File ''x''), (ustr ''09'', Dir [(ustr ''aa'', ''old'')])] =
       Inr (ustr ''09090909090909090909090909090909090909c2'',
            [(ustr ''info'', File ''x''),
             (ustr ''09'', Dir [(ustr ''aa'', ''old''),
                                (ustr ''090909090909090909090909090909090909c2'',
                                 ''zblob 2'' @ [CHR 0x00] @ ''hi'')])])
   \<and> hash_object sample_lib (Bytes ''hi'') (ustr ''blob'')
         [(ustr ''09'', Dir [(ustr ''090909090909090909090909090909090909c2'',
                              ''zblob 2'' @ [CHR 0x00] @ ''hi'')])] =
       Inr (ustr ''09090909090909090909090909090909090909c2'',
            [(ustr ''09'', Dir [(ustr ''090909090909090909090909090909090909c2'',
                                 ''zblob 2'' @ [CHR 0x00] @ ''hi'')])])"
proof -
  note t = hash_object_deterministic [OF sample_write sample_write_other]
  have again: "hash_object sample_lib (Bytes ''hi'') (ustr ''blob'')
         [(ustr ''09'', Dir [(ustr ''090909090909090909090909090909090909c2'',
                              ''zblob 2'' @ [CHR 0x00] @ ''hi'')])] =
       Inr (ustr ''09090909090909090909090909090909090909c2'',
            [(ustr ''09'', Dir [(ustr ''090909090909090909090909090909090909c2'',
                                 ''zblob 2'' @ [CHR 0x00] @ ''hi'')])])"
    using t by (elim conjE)
  show ?thesis using sample_write sample_write_other again by (intro conjI)
qed


theorem hash_object_str_witness:
  "utf8_encode [0x20AC] = Inr [CHR 0xE2, CHR 0x82, CHR 0xAC]
   \<and> hash_object sample_lib (Str [0x20AC]) (ustr ''blob'') [] =
       hash_object sample_lib (Bytes [CHR 0xE2, CHR 0x82, CHR 0xAC]) (ustr ''blob'') []"
  using hash_object_str [of sample_lib "[0x20AC]" "ustr ''blob''" "[]"] sample_euro
  by (simp only: sum.case)


theorem read_after_write_witness:
  "pylib_ok sample_lib \<and> ''blob'' \<in> kind_tags
   \<and> hash_object sample_lib (Bytes ''hi'') (ustr ''blob'') [] =
       Inr (ustr ''09090909090909090909090909090909090909c2'',
            [(ustr ''09'', Dir [(ustr ''090909090909090909090909090909090909c2'',
                                 ''zblob 2'' @ [CHR 0x00] @ ''hi'')])])
   \<and> read_object sample_lib (ustr ''09090909090909090909090909090909090909c2'')
         [(ustr ''09'', Dir [(ustr ''090909090909090909090909090909090909c2'',
                              ''zblob 2'' @ [CHR 0x00] @ ''hi'')])] =
       Inr (ustr ''blob'', ''hi'')"
proof -
  note t = read_after_write [OF sample_lib_ok blob_kind sample_write]
  show ?thesis using sample_lib_ok blob_kind sample_write t by (intro conjI)
qed

section \<open>Resolving a name\<close>

lemma select_match_set:
  assumes "distinct ms"
  shows "select_match q ms =
     (if set ms = {} then Inl (FileNotFoundError q)
      else if card (set ms) > 1 then Inl (AmbiguousPrefix q (card (set ms)))
      else Inr (the_elem (set ms)))"
proof (cases ms)
  case Nil
  then show ?thesis by (simp add: select_match_def)
next
  case (Cons x xs)
  note c = distinct_card [OF assms]
  show ?thesis
  proof (cases xs)
    case Nil
    with Cons show ?thesis by (simp add: select_match_def)
  next
    case (Cons y ys)
    with \<open>ms = x # xs\<close> c show ?thesis by (simp add: select_match_def)
  qed
qed

lemma bucket_listdir: "bucket fs d = Some files \<Longrightarrow> d \<in> set (listdir fs)"
  by (auto simp: bucket_def listdir_def split: option.splits node.splits dest: map_of_SomeD
           intro: rev_image_eqI)

lemma in_stored_names:
  "x \<in> set (stored_names fs) \<longleftrightarrow>
     (\<exists>d files f. bucket fs d = Some files \<and> f \<in> set (listdir files) \<and> x = d @ f)"
proof
  assume "x \<in> set (stored_names fs)"
  then obtain d where d: "d \<in> set (listdir fs)"
    "x \<in> set (case bucket fs d of None \<Rightarrow> [] | Some files \<Rightarrow> map ((@) d) (listdir files))"
    by (auto simp: stored_names_def)
  then obtain files where "bucket fs d = Some files" "x \<in> set (map ((@) d) (listdir files))"
    by (cases "bucket fs d") auto
  then show "\<exists>d files f. bucket fs d = Some files \<and> f \<in> set (listdir files) \<and> x = d @ f"
    by auto
next
  assume "\<exists>d files f. bucket fs d = Some files \<and> f \<in> set (listdir files) \<and> x = d @ f"
  then obtain d files f where h: "bucket fs d = Some files" "f \<in> set (listdir files)" "x = d @ f"
    by blast
  from h(1) have "d \<in> set (listdir fs)" by (rule bucket_listdir)
  moreover have "x \<in> set (case bucket fs d of None \<Rightarrow> [] | Some files \<Rightarrow> map ((@) d) (listdir files))"
    using h by simp
  ultimately show "x \<in> set (stored_names fs)"
    unfolding stored_names_def by (simp only: set_concat set_map) blast
qed

lemma store_layout_bucket:
  assumes "store_layout fs" "bucket fs d = Some files"
  shows "bucket_layout d files"
proof -
  from assms(2) have "d \<in> set (listdir fs)" by (rule bucket_listdir)
  with assms(1) have "case bucket fs d of None \<Rightarrow> True | Some files \<Rightarrow> bucket_layout d files"
    by (simp add: store_layout_def list_all_iff)
  with assms(2) show ?thesis by simp
qed

lemma distinct_concat_map:
  assumes "distinct ds" "\<And>d. d \<in> set ds \<Longrightarrow> distinct (g d)"
    and "\<And>d e. d \<in> set ds \<Longrightarrow> e \<in> set ds \<Longrightarrow> d \<noteq> e \<Longrightarrow> set (g d) \<inter> set (g e) = {}"
  shows "distinct (concat (map g ds))"
  using assms
proof (induction ds)
  case Nil
  then show ?case by simp
next
  case (Cons d ds)
  have "distinct (concat (map g ds))"
    using Cons.prems by (intro Cons.IH) auto
  moreover have "set (g d) \<inter> set (g e) = {}" if "e \<in> set ds" for e
    using Cons.prems(1) that by (intro Cons.prems(3)) auto
  ultimately show ?case using Cons.prems(2) by auto
qed

lemma distinct_stored_names:
  assumes "store_layout fs"
  shows "distinct (stored_names fs)"
  unfolding stored_names_def
proof (rule distinct_concat_map)
  show "distinct (listdir fs)" using assms by (simp add: store_layout_def)
next
  fix d assume "d \<in> set (listdir fs)"
  show "distinct (case bucket fs d of None \<Rightarrow> [] | Some files \<Rightarrow> map ((@) d) (listdir files))"
  proof (cases "bucket fs d")
    case None then show ?thesis by simp
  next
    case (Some files)
    from store_layout_bucket [OF assms Some] have "distinct (listdir files)"
      by (simp add: bucket_layout_def)
    with Some show ?thesis by (simp add: distinct_map inj_on_def)
  qed
next
  fix d e assume de: "d \<in> set (listdir fs)" "e \<in> set (listdir fs)" "d \<noteq> e"
  show "set (case bucket fs d of None \<Rightarrow> [] | Some files \<Rightarrow> map ((@) d) (listdir files)) \<inter>
        set (case bucket fs e of None \<Rightarrow> [] | Some files \<Rightarrow> map ((@) e) (listdir files)) = {}"
  proof (cases "bucket fs d")
    case None then show ?thesis by simp
  next
    case d: (Some fd)
    show ?thesis
    proof (cases "bucket fs e")
      case None then show ?thesis by simp
    next
      case e: (Some fe)
      from store_layout_bucket [OF assms d] store_layout_bucket [OF assms e]
      have "length d = length e" by (simp add: bucket_layout_def)
      with de(3) d e show ?thesis by auto
    qed
  qed
qed

lemma scan_all_stored:
  "scan_all q fs = filter (\<lambda>x. startswith x q) (stored_names fs)"
proof -
  have "map ((@) d) (filter (\<lambda>f. startswith (d @ f) q) fl) =
        filter (\<lambda>x. startswith x q) (map ((@) d) fl)" for d and fl :: "str list"
    by (simp add: filter_map comp_def)
  then show ?thesis
    unfolding scan_all_def stored_names_def filter_concat map_map comp_def
    by (intro arg_cong [where f = concat] map_cong refl) (simp split: option.splits)
qed

lemma startswith_append:
  assumes "length d = 2" "2 \<le> length q"
  shows "startswith (d @ f) q \<longleftrightarrow> d = take 2 q \<and> startswith f (drop 2 q)"
proof -
  have l: "length d = length (take 2 q)" using assms by simp
  have "startswith (d @ f) q \<longleftrightarrow> d @ take (length q - 2) f = q"
    using assms by (simp add: startswith_def)
  also have "\<dots> \<longleftrightarrow> d @ take (length q - 2) f = take 2 q @ drop 2 q"
    by simp
  also have "\<dots> \<longleftrightarrow> d = take 2 q \<and> take (length q - 2) f = drop 2 q"
    by (rule append_eq_append_conv) (rule disjI1, rule l)
  also have "\<dots> \<longleftrightarrow> d = take 2 q \<and> startswith f (drop 2 q)"
    by (simp add: startswith_def)
  finally show ?thesis .
qed


lemma matching_iff:
  "x \<in> matching fs q \<longleftrightarrow>
     (\<exists>d files f. bucket fs d = Some files \<and> f \<in> set (listdir files) \<and> x = d @ f
        \<and> startswith (d @ f) q)"
  by (auto simp: matching_def in_stored_names)

lemma scan_bucket_None:
  assumes "store_layout fs" "2 \<le> length q" "bucket fs (take 2 q) = None"
  shows "matching fs q = {}"
proof -
  have "x \<notin> matching fs q" for x
  proof
    assume "x \<in> matching fs q"
    then obtain d files f where h: "bucket fs d = Some files" "startswith (d @ f) q"
      by (auto simp: matching_iff)
    from store_layout_bucket [OF assms(1) h(1)] have "length d = 2"
      by (simp add: bucket_layout_def)
    with h(2) assms(2) have "d = take 2 q" by (simp add: startswith_append)
    with h(1) assms(3) show False by simp
  qed
  then show ?thesis by blast
qed

lemma scan_bucket_Some:
  assumes "store_layout fs" "2 \<le> length q" "bucket fs (take 2 q) = Some files"
  shows "set (map ((@) (take 2 q)) (filter (\<lambda>f. startswith f (drop 2 q)) (listdir files))) =
           matching fs q"
    and "distinct (map ((@) (take 2 q)) (filter (\<lambda>f. startswith f (drop 2 q)) (listdir files)))"
proof -
  have l2: "length (take 2 q) = 2" using assms(2) by simp
  show "set (map ((@) (take 2 q)) (filter (\<lambda>f. startswith f (drop 2 q)) (listdir files))) =
           matching fs q"
  proof (intro set_eqI iffI)
    fix x
    assume "x \<in> set (map ((@) (take 2 q)) (filter (\<lambda>f. startswith f (drop 2 q)) (listdir files)))"
    then obtain f where f: "f \<in> set (listdir files)" "startswith f (drop 2 q)" "x = take 2 q @ f"
      by auto
    from f(2) have "startswith (take 2 q @ f) q"
      using l2 assms(2) by (simp add: startswith_append)
    with assms(3) f(1,3) show "x \<in> matching fs q" by (auto simp: matching_iff)
  next
    fix x
    assume "x \<in> matching fs q"
    then obtain d fl f where h: "bucket fs d = Some fl" "f \<in> set (listdir fl)" "x = d @ f"
      "startswith (d @ f) q"
      by (auto simp: matching_iff)
    from store_layout_bucket [OF assms(1) h(1)] have "length d = 2"
      by (simp add: bucket_layout_def)
    with h(4) assms(2) have d: "d = take 2 q" "startswith f (drop 2 q)"
      by (simp_all add: startswith_append)
    with h(1) assms(3) have "fl = files" by simp
    with h(2,3) d
    show "x \<in> set (map ((@) (take 2 q)) (filter (\<lambda>f. startswith f (drop 2 q)) (listdir files)))"
      by auto
  qed
  from store_layout_bucket [OF assms(1,3)] have "distinct (listdir files)"
    by (simp add: bucket_layout_def)
  then show "distinct (map ((@) (take 2 q)) (filter (\<lambda>f. startswith f (drop 2 q)) (listdir files)))"
    by (simp add: distinct_map inj_on_def)
qed

lemma stored_length:
  assumes "store_layout fs" "x \<in> set (stored_names fs)"
  shows "length x = 40"
proof -
  from assms(2) obtain d files f where h: "bucket fs d = Some files" "f \<in> set (listdir files)"
    "x = d @ f"
    by (auto simp: in_stored_names)
  from store_layout_bucket [OF assms(1) h(1)] h(2) have "length d = 2" "length f = 38"
    by (auto simp: bucket_layout_def list_all_iff)
  with h(3) show ?thesis by simp
qed

lemma path_exists_stored:
  assumes "store_layout fs" "length q = 40"
  shows "path_exists fs (take 2 q) (drop 2 q) \<longleftrightarrow> q \<in> set (stored_names fs)"
proof
  assume "path_exists fs (take 2 q) (drop 2 q)"
  then obtain files c where f: "bucket fs (take 2 q) = Some files" "map_of files (drop 2 q) = Some c"
    by (auto simp: path_exists_def lookup_file_def split: option.splits)
  from f(2) have "drop 2 q \<in> set (listdir files)"
    by (auto simp: listdir_def dest: map_of_SomeD intro: rev_image_eqI)
  with f(1) have "take 2 q @ drop 2 q \<in> set (stored_names fs)"
    unfolding in_stored_names by blast
  then show "q \<in> set (stored_names fs)" by simp
next
  assume "q \<in> set (stored_names fs)"
  then obtain d files f where h: "bucket fs d = Some files" "f \<in> set (listdir files)" "q = d @ f"
    by (auto simp: in_stored_names)
  from store_layout_bucket [OF assms(1) h(1)] have "length d = 2"
    by (simp add: bucket_layout_def)
  with h(3) have d: "take 2 q = d" "drop 2 q = f" by simp_all
  from h(2) have "map_of files f \<noteq> None"
    by (simp add: listdir_def map_of_eq_None_iff)
  with h(1) d show "path_exists fs (take 2 q) (drop 2 q)"
    by (simp add: path_exists_def lookup_file_def)
qed

lemma matching_full:
  assumes "store_layout fs" "length q = 40"
  shows "matching fs q = (if q \<in> set (stored_names fs) then {q} else {})"
proof -
  have "startswith x q \<longleftrightarrow> x = q" if "x \<in> set (stored_names fs)" for x
    using stored_length [OF assms(1) that] assms(2) by (auto simp: startswith_def)
  then show ?thesis by (auto simp: matching_def)
qed

lemma find_object_spec:
  assumes "store_layout fs"
  shows "find_object name fs =
     (if matching fs (lower name) = {} then Inl (FileNotFoundError (lower name))
      else if card (matching fs (lower name)) > 1 then
        Inl (AmbiguousPrefix (lower name) (card (matching fs (lower name))))
      else Inr (the_elem (matching fs (lower name))))"
proof -
  let ?q = "lower name"
  consider (full) "length ?q = 40" | (short) "length ?q < 2" | (mid) "2 \<le> length ?q" "length ?q \<noteq> 40"
    by linarith
  then show ?thesis
  proof cases
    case full
    then show ?thesis
      using matching_full [OF assms full] path_exists_stored [OF assms full]
      by (simp add: find_object_def Let_def)
  next
    case short
    have "select_match ?q (scan_all ?q fs) =
      (if matching fs ?q = {} then Inl (FileNotFoundError ?q)
       else if card (matching fs ?q) > 1 then Inl (AmbiguousPrefix ?q (card (matching fs ?q)))
       else Inr (the_elem (matching fs ?q)))"
      unfolding scan_all_stored matching_def
      by (rule select_match_set) (simp add: distinct_stored_names [OF assms])
    with short show ?thesis by (simp add: find_object_def Let_def find_matches_def)
  next
    case mid
    show ?thesis
    proof (cases "bucket fs (take 2 ?q)")
      case None
      with mid scan_bucket_None [OF assms mid(1) None] show ?thesis
        by (simp add: find_object_def Let_def find_matches_def scan_bucket_def)
    next
      case (Some files)
      let ?ms = "map ((@) (take 2 ?q)) (filter (\<lambda>f. startswith f (drop 2 ?q)) (listdir files))"
      note sb = scan_bucket_Some [OF assms mid(1) Some]
      have "select_match ?q ?ms =
        (if set ?ms = {} then Inl (FileNotFoundError ?q)
         else if card (set ?ms) > 1 then Inl (AmbiguousPrefix ?q (card (set ?ms)))
         else Inr (the_elem (set ?ms)))"
        using sb(2) by (rule select_match_set)
      then have "select_match ?q ?ms =
        (if matching fs ?q = {} then Inl (FileNotFoundError ?q)
         else if card (matching fs ?q) > 1 then Inl (AmbiguousPrefix ?q (card (matching fs ?q)))
         else Inr (the_elem (matching fs ?q)))"
        by (simp only: sb(1))
      with mid Some show ?thesis
        by (simp add: find_object_def Let_def find_matches_def scan_bucket_def)
    qed
  qed
qed

subsection \<open>The layout is kept by writing\<close>

lemma update_absent: "k \<notin> fst ` set al \<Longrightarrow> AList.update k v al = al @ [(k, v)]"
  by (induction al) auto

lemma write_file_update:
  assumes "write_file d f c fs = Inr fs'"
  shows "fs' = AList.update d (Dir (AList.update f c (case bucket fs d of None \<Rightarrow> [] | Some files \<Rightarrow> files))) fs"
proof (cases "map_of fs d")
  case None
  then have "d \<notin> fst ` set fs" by (simp add: map_of_eq_None_iff)
  then have "AList.update d (Dir [(f, c)]) fs = fs @ [(d, Dir [(f, c)])]" by (rule update_absent)
  with None assms show ?thesis by (simp add: write_file_def bucket_def)
next
  case (Some n)
  with assms show ?thesis by (cases n) (simp_all add: write_file_def bucket_def)
qed

lemma listdir_update: "set (listdir (AList.update k v al)) = insert k (set (listdir al))"
  using AList.dom_update [of k v al] by (simp add: listdir_def)

lemma distinct_listdir_update: "distinct (listdir al) \<Longrightarrow> distinct (listdir (AList.update k v al))"
  unfolding listdir_def by (rule AList.distinct_update)

lemma bucket_layout_update:
  assumes "bucket_layout d files" "length f = 38" "list_all hexchar f"
  shows "bucket_layout d (AList.update f c files)"
  using assms by (simp add: bucket_layout_def distinct_listdir_update list_all_iff listdir_update)

lemma bucket_layout_empty: "length d = 2 \<Longrightarrow> list_all hexchar d \<Longrightarrow> bucket_layout d []"
  by (simp add: bucket_layout_def listdir_def)

lemma store_layout_write:
  assumes "store_layout fs" "write_file d f c fs = Inr fs'"
    and "length d = 2" "list_all hexchar d" "length f = 38" "list_all hexchar f"
  shows "store_layout fs'"
proof -
  let ?old = "case bucket fs d of None \<Rightarrow> [] | Some files \<Rightarrow> files"
  note fs' = write_file_update [OF assms(2)]
  have old: "bucket_layout d ?old"
  proof (cases "bucket fs d")
    case None with assms(3,4) show ?thesis by (simp add: bucket_layout_empty)
  next
    case (Some files) with store_layout_bucket [OF assms(1)] show ?thesis by simp
  qed
  have new: "bucket_layout d (AList.update f c ?old)"
    using old assms(5,6) by (rule bucket_layout_update)
  have "distinct (listdir fs')"
    using assms(1) unfolding fs' by (simp add: store_layout_def distinct_listdir_update)
  moreover have "case bucket fs' e of None \<Rightarrow> True | Some files \<Rightarrow> bucket_layout e files" for e
  proof (cases "e = d")
    case True
    with write_file_bucket [OF assms(2), of e] new show ?thesis by simp
  next
    case False
    with write_file_bucket [OF assms(2), of e] have "bucket fs' e = bucket fs e" by simp
    with store_layout_bucket [OF assms(1), of e] show ?thesis
      by (cases "bucket fs e") simp_all
  qed
  ultimately show ?thesis by (simp add: store_layout_def list_all_iff)
qed

lemma store_layout_empty: "store_layout []"
  by (simp add: store_layout_def listdir_def)

lemma store_layout_hash_object:
  assumes "pylib_ok L" "store_layout fs" "hash_object L d t fs = Inr (sha, fs')"
  shows "store_layout fs'"
proof -
  from assms(3) obtain full where full: "sha = hexdigest L full"
    "write_file (take 2 sha) (drop 2 sha) (zlib_compress L full) fs = Inr fs'"
    by (rule hash_object_Inr)
  have len: "length sha = 40" using assms(1) full(1) by (simp add: length_hexdigest)
  have hx: "list_all hexchar sha"
    using full(1) by (auto simp: hexdigest_def list_all_iff dest: hex_hexchar)
  from hx have "list_all hexchar (take 2 sha)" "list_all hexchar (drop 2 sha)"
    by (auto simp: list_all_iff dest: in_set_takeD in_set_dropD)
  with len show ?thesis
    by (intro store_layout_write [OF assms(2) full(2)]) simp_all
qed

lemma stored_hexchars:
  assumes "store_layout fs" "x \<in> set (stored_names fs)"
  shows "list_all hexchar x"
proof -
  from assms(2) obtain d files f where h: "bucket fs d = Some files" "f \<in> set (listdir files)"
    "x = d @ f"
    by (auto simp: in_stored_names)
  from store_layout_bucket [OF assms(1) h(1)] h(2) have "list_all hexchar d" "list_all hexchar f"
    by (auto simp: bucket_layout_def list_all_iff)
  with h(3) show ?thesis by simp
qed

lemma find_object_stored:
  assumes "store_layout fs" "full \<in> set (stored_names fs)"
  shows "find_object full fs = Inr full"
proof (rule find_object_full)
  show l: "length full = 40" using assms by (rule stored_length)
  show "lower full = full"
    using stored_hexchars [OF assms] by (intro lower_hexchars) (simp add: list_all_iff)
  show "path_exists fs (take 2 full) (drop 2 full)"
    using assms(2) path_exists_stored [OF assms(1) l] by simp
qed

lemma matching_stored: "x \<in> matching fs q \<Longrightarrow> x \<in> set (stored_names fs)"
  by (simp add: matching_def)

subsection \<open>The claims about resolving a name\<close>

text \<open>
  Claim C4. In an object database with the layout of the store, and for a query of
  hexadecimal digits, \<^verbatim>\<open>find_object\<close> is decided by the set of stored names that
  start with the lowercased query: it raises
  \<^verbatim>\<open>FileNotFoundError\<close> when the set is empty, raises the \<^verbatim>\<open>ValueError\<close> of an ambiguous
  prefix with the number of matches when there is more than one, and returns the
  name when there is exactly one. An ambiguous prefix is never resolved to a first
  match.
\<close>
theorem find_object_resolves:
  assumes "store_layout fs" and "hex_query name"
  shows "find_object name fs =
     (if matching fs (lower name) = {} then Inl (FileNotFoundError (lower name))
      else if card (matching fs (lower name)) > 1 then
        Inl (AmbiguousPrefix (lower name) (card (matching fs (lower name))))
      else Inr (the_elem (matching fs (lower name))))"
  using assms(1) by (rule find_object_spec)

text \<open>
  Claim C5. For a query of 2 to 39 hexadecimal digits, lowercased to \<open>q\<close>,
  \<^verbatim>\<open>find_object\<close> looks at the subdirectory named by the first two characters of \<open>q\<close> and at nothing
  else: it raises \<^verbatim>\<open>FileNotFoundError\<close> when that subdirectory does not exist;
  otherwise the matches are exactly the names made of those two characters and a
  file of the subdirectory that starts with the rest of \<open>q\<close>; and the result is the
  same in every state that has the same subdirectory.
\<close>
theorem find_object_bucket:
  assumes "2 \<le> length name" "length name < 40" and "hex_query name"
  shows "(bucket fs (take 2 (lower name)) = None \<longrightarrow>
            find_object name fs = Inl (FileNotFoundError (lower name)))
       \<and> (\<forall>files. bucket fs (take 2 (lower name)) = Some files \<longrightarrow>
            (\<exists>ms. find_matches (lower name) fs = Inr ms
               \<and> set ms = {take 2 (lower name) @ f | f.
                            f \<in> set (listdir files) \<and> startswith f (drop 2 (lower name))}
               \<and> find_object name fs = select_match (lower name) ms))
       \<and> (\<forall>gs. bucket gs (take 2 (lower name)) = bucket fs (take 2 (lower name)) \<longrightarrow>
            find_object name gs = find_object name fs)"
proof -
  let ?q = "lower name"
  have len: "2 \<le> length ?q" "length ?q \<noteq> 40"
    using assms(1,2) by (simp_all add: length_lower)
  have fo: "find_object name hs =
      (case bucket hs (take 2 ?q) of
         None \<Rightarrow> Inl (FileNotFoundError ?q)
       | Some files \<Rightarrow>
           select_match ?q (map ((@) (take 2 ?q)) (filter (\<lambda>f. startswith f (drop 2 ?q)) (listdir files))))"
    for hs
    using len by (simp add: find_object_def find_matches_def scan_bucket_def Let_def split: option.splits)
  have "find_object name fs = Inl (FileNotFoundError ?q)" if "bucket fs (take 2 ?q) = None"
    using that by (simp add: fo)
  moreover have "\<exists>ms. find_matches ?q fs = Inr ms
               \<and> set ms = {take 2 ?q @ f | f. f \<in> set (listdir files) \<and> startswith f (drop 2 ?q)}
               \<and> find_object name fs = select_match ?q ms"
    if "bucket fs (take 2 ?q) = Some files" for files
  proof (intro exI conjI)
    show "find_matches ?q fs =
        Inr (map ((@) (take 2 ?q)) (filter (\<lambda>f. startswith f (drop 2 ?q)) (listdir files)))"
      using len that by (simp add: find_matches_def scan_bucket_def Let_def)
    show "set (map ((@) (take 2 ?q)) (filter (\<lambda>f. startswith f (drop 2 ?q)) (listdir files))) =
        {take 2 ?q @ f | f. f \<in> set (listdir files) \<and> startswith f (drop 2 ?q)}"
      by auto
    show "find_object name fs =
        select_match ?q (map ((@) (take 2 ?q)) (filter (\<lambda>f. startswith f (drop 2 ?q)) (listdir files)))"
      using that by (simp add: fo)
  qed
  moreover have "find_object name gs = find_object name fs"
    if "bucket gs (take 2 ?q) = bucket fs (take 2 ?q)" for gs
    using that by (simp add: fo)
  ultimately show ?thesis by blast
qed

text \<open>
  Claim C9. \<^verbatim>\<open>read_object\<close> resolves its argument with \<^verbatim>\<open>find_object\<close> first: given a
  prefix that exactly one stored name starts with, it reads that object, as it would
  from the full name; given a prefix that several stored names start with, it raises
  the \<^verbatim>\<open>ValueError\<close> of an ambiguous prefix with their number.
\<close>
theorem read_object_prefix:
  assumes "store_layout fs"
  shows "(\<forall>full. matching fs (lower name) = {full} \<longrightarrow>
            find_object name fs = Inr full \<and> read_object L name fs = read_object L full fs)
       \<and> (card (matching fs (lower name)) > 1 \<longrightarrow>
            read_object L name fs =
              Inl (AmbiguousPrefix (lower name) (card (matching fs (lower name)))))"
proof (intro conjI allI impI)
  fix full
  assume m: "matching fs (lower name) = {full}"
  then show r: "find_object name fs = Inr full"
    by (simp add: find_object_spec [OF assms])
  from m have "full \<in> set (stored_names fs)" by (auto intro: matching_stored)
  with assms have "find_object full fs = Inr full" by (rule find_object_stored)
  with r show "read_object L name fs = read_object L full fs"
    by (simp add: read_object_def)
next
  assume "card (matching fs (lower name)) > 1"
  moreover from this have "matching fs (lower name) \<noteq> {}" by auto
  ultimately show "read_object L name fs =
      Inl (AmbiguousPrefix (lower name) (card (matching fs (lower name))))"
    by (simp add: read_object_def find_object_spec [OF assms])
qed

subsection \<open>A sample state\<close>

lemma sample_store_layout: "store_layout sample_store"
  by (simp add: store_layout_def sample_store_def listdir_def bucket_def bucket_layout_def
        hexchar_def ustr_def)

lemma sample_find_ambiguous:
  "find_object (ustr ''0909'') sample_store = Inl (AmbiguousPrefix (ustr ''0909'') 2)"
  by (simp add: find_object_def lower_def Let_def find_matches_def scan_bucket_def bucket_def
        select_match_def startswith_def listdir_def sample_store_def ustr_def)

lemma sample_find_unique:
  "find_object (ustr ''09090909090909090909090909090909090909C'') sample_store =
     Inr (ustr ''09090909090909090909090909090909090909c2'')"
  by (simp add: find_object_def lower_def Let_def find_matches_def scan_bucket_def bucket_def
        select_match_def startswith_def listdir_def sample_store_def ustr_def)

lemma sample_find_missing:
  "find_object (ustr ''abc'') sample_store = Inl (FileNotFoundError (ustr ''abc''))"
  by (simp add: find_object_def lower_def Let_def find_matches_def scan_bucket_def bucket_def
        select_match_def startswith_def listdir_def sample_store_def ustr_def)

lemma sample_find_full:
  "find_object (ustr ''09090909090909090909090909090909090909c2'') sample_store =
     Inr (ustr ''09090909090909090909090909090909090909c2'')"
  by (simp add: find_object_def lower_def Let_def path_exists_def lookup_file_def bucket_def
        sample_store_def ustr_def)

lemma sample_parse: "parse_object (''blob 2'' @ [CHR 0x00] @ ''hi'') = Inr (ustr ''blob'', ''hi'')"
  by (simp add: parse_object_def find_byte_def clip_def slice_to_def slice_from_def split1_def
        utf8_decode_def ustr_def)

lemma sample_bucket:
  "bucket sample_store (ustr ''09'') =
     Some [(ustr ''090909090909090909090909090909090909c2'', ''zblob 2'' @ [CHR 0x00] @ ''hi''),
            (ustr ''090909090909090909090909090909090909d9'', ''zblob 2'' @ [CHR 0x00] @ ''yo'')]"
  by (simp add: bucket_def sample_store_def ustr_def)

lemma sample_matching:
  "matching sample_store (ustr ''0909'') =
     {ustr ''09090909090909090909090909090909090909c2'', ustr ''09090909090909090909090909090909090909d9''}"
  by (simp add: matching_def stored_names_def bucket_def listdir_def startswith_def sample_store_def ustr_def)

lemma sample_hex_query:
  "hex_query (ustr ''0909'')"
  "hex_query (ustr ''09090909090909090909090909090909090909C'')"
  by (simp_all add: hex_query_def hexchar_def ustr_def)

lemma sample_lower:
  "lower (ustr ''0909'') = ustr ''0909''"
  "lower (ustr ''09090909090909090909090909090909090909C'') =
     ustr ''09090909090909090909090909090909090909c''"
  by (simp_all add: lower_def ustr_def)

lemma sample_matching_unique:
  "matching sample_store (ustr ''09090909090909090909090909090909090909c'') =
     {ustr ''09090909090909090909090909090909090909c2''}"
  by (simp add: matching_def stored_names_def bucket_def listdir_def startswith_def
        sample_store_def ustr_def)

lemma sample_names_differ:
  "ustr ''09090909090909090909090909090909090909c2'' \<noteq>
   ustr ''09090909090909090909090909090909090909d9''"
  by (simp add: ustr_def)

lemma sample_read_full:
  "read_object sample_lib (ustr ''09090909090909090909090909090909090909c2'') sample_store =
     Inr (ustr ''blob'', ''hi'')"
proof -
  have "read_file sample_store (ustr ''09'') (ustr ''090909090909090909090909090909090909c2'') =
          Inr (''zblob 2'' @ [CHR 0x00] @ ''hi'')"
    by (simp add: read_file_def lookup_file_def sample_bucket)
  moreover have "zlib_decompress sample_lib (''zblob 2'' @ [CHR 0x00] @ ''hi'') =
          Some (''blob 2'' @ [CHR 0x00] @ ''hi'')"
    by (simp add: sample_lib_def)
  ultimately show ?thesis
    unfolding read_object_def sample_find_full sum.case
    by (simp only: sample_name sum.case option.case sample_parse)
qed

theorem find_object_resolves_witness:
  "store_layout sample_store
   \<and> hex_query (ustr ''0909'')
   \<and> hex_query (ustr ''09090909090909090909090909090909090909C'')
   \<and> matching sample_store (lower (ustr ''0909'')) =
       {ustr ''09090909090909090909090909090909090909c2'',
        ustr ''09090909090909090909090909090909090909d9''}
   \<and> find_object (ustr ''0909'') sample_store = Inl (AmbiguousPrefix (ustr ''0909'') 2)
   \<and> matching sample_store (lower (ustr ''09090909090909090909090909090909090909C'')) =
       {ustr ''09090909090909090909090909090909090909c2''}
   \<and> find_object (ustr ''09090909090909090909090909090909090909C'') sample_store =
       Inr (ustr ''09090909090909090909090909090909090909c2'')"
proof -
  have a: "find_object (ustr ''0909'') sample_store = Inl (AmbiguousPrefix (ustr ''0909'') 2)"
    using find_object_resolves [OF sample_store_layout sample_hex_query(1)] sample_names_differ
    by (simp add: sample_lower sample_matching)
  have u: "find_object (ustr ''09090909090909090909090909090909090909C'') sample_store =
       Inr (ustr ''09090909090909090909090909090909090909c2'')"
    using find_object_resolves [OF sample_store_layout sample_hex_query(2)]
    by (simp add: sample_lower sample_matching_unique)
  show ?thesis
    using sample_store_layout sample_hex_query a u
    by (simp add: sample_lower sample_matching sample_matching_unique)
qed

lemma sample_query_length:
  "2 \<le> length (ustr ''09090909090909090909090909090909090909C'')"
  "length (ustr ''09090909090909090909090909090909090909C'') < 40"
  by (simp_all add: ustr_def)

lemma sample_bucket_only:
  "bucket [(ustr ''09'',
            Dir [(ustr ''090909090909090909090909090909090909c2'', ''zblob 2'' @ [CHR 0x00] @ ''hi''),
                 (ustr ''090909090909090909090909090909090909d9'', ''zblob 2'' @ [CHR 0x00] @ ''yo'')])]
      (take 2 (lower (ustr ''09090909090909090909090909090909090909C''))) =
   bucket sample_store (take 2 (lower (ustr ''09090909090909090909090909090909090909C'')))"
  by (simp add: bucket_def sample_store_def lower_def ustr_def)

theorem find_object_bucket_witness:
  "2 \<le> length (ustr ''09090909090909090909090909090909090909C'')
   \<and> length (ustr ''09090909090909090909090909090909090909C'') < 40
   \<and> hex_query (ustr ''09090909090909090909090909090909090909C'')
   \<and> find_object (ustr ''09090909090909090909090909090909090909C'')
        [(ustr ''09'',
          Dir [(ustr ''090909090909090909090909090909090909c2'', ''zblob 2'' @ [CHR 0x00] @ ''hi''),
               (ustr ''090909090909090909090909090909090909d9'', ''zblob 2'' @ [CHR 0x00] @ ''yo'')])] =
       Inr (ustr ''09090909090909090909090909090909090909c2'')"
proof -
  note t = find_object_bucket [OF sample_query_length sample_hex_query(2), of sample_store]
  from t have "\<forall>gs. bucket gs (take 2 (lower (ustr ''09090909090909090909090909090909090909C''))) =
      bucket sample_store (take 2 (lower (ustr ''09090909090909090909090909090909090909C''))) \<longrightarrow>
      find_object (ustr ''09090909090909090909090909090909090909C'') gs =
      find_object (ustr ''09090909090909090909090909090909090909C'') sample_store"
    by (elim conjE)
  from this [rule_format, OF sample_bucket_only] sample_find_unique sample_query_length
    sample_hex_query(2)
  show ?thesis by (simp only: simp_thms)
qed

theorem read_object_prefix_witness:
  "store_layout sample_store
   \<and> matching sample_store (lower (ustr ''09090909090909090909090909090909090909C'')) =
       {ustr ''09090909090909090909090909090909090909c2''}
   \<and> read_object sample_lib (ustr ''09090909090909090909090909090909090909C'') sample_store =
       Inr (ustr ''blob'', ''hi'')
   \<and> read_object sample_lib (ustr ''0909'') sample_store =
       Inl (AmbiguousPrefix (ustr ''0909'') 2)"
proof -
  note t = read_object_prefix [OF sample_store_layout]
  have m: "matching sample_store (lower (ustr ''09090909090909090909090909090909090909C'')) =
       {ustr ''09090909090909090909090909090909090909c2''}"
    by (simp only: sample_lower sample_matching_unique)
  from t [of "ustr ''09090909090909090909090909090909090909C''" sample_lib] m
  have r: "read_object sample_lib (ustr ''09090909090909090909090909090909090909C'') sample_store =
       Inr (ustr ''blob'', ''hi'')"
    by (simp only: sample_read_full)
  have c: "card (matching sample_store (lower (ustr ''0909''))) = 2"
    using sample_names_differ by (simp add: sample_lower sample_matching)
  from t [of "ustr ''0909''" sample_lib] c
  have a: "read_object sample_lib (ustr ''0909'') sample_store =
       Inl (AmbiguousPrefix (ustr ''0909'') 2)"
    by (simp add: sample_lower)
  show ?thesis using sample_store_layout m r a by (intro conjI)
qed

section \<open>Printing and decoding\<close>

text \<open>
  Claim C8. For an object that \<^verbatim>\<open>read_object\<close> reads as kind \<open>t\<close> with payload \<open>dat\<close>:
  in one of the modes blob, tree and commit, \<^verbatim>\<open>cat_file\<close> raises the \<^verbatim>\<open>ValueError\<close> of a
  type mismatch exactly when \<open>t\<close> is not the mode, and otherwise writes \<open>dat\<close> as it is
  and nothing else; in a mode that it does not know, it raises the \<^verbatim>\<open>ValueError\<close> of
  an unexpected mode and writes nothing.
\<close>
theorem cat_file_exact_kind:
  assumes "read_object L sha fs = Inr (t, dat)"
  shows "(mode \<in> ustr ` kind_tags \<longrightarrow>
            cat_file L mode sha fs =
              (if t \<noteq> mode then Some ([], Some (TypeMismatch mode t)) else Some (dat, None)))
       \<and> (mode \<notin> known_modes \<longrightarrow>
            cat_file L mode sha fs = Some ([], Some (UnexpectedMode mode)))"
proof (intro conjI impI)
  assume "mode \<in> ustr ` kind_tags"
  then have "mode \<in> set [ustr ''commit'', ustr ''tree'', ustr ''blob'']"
    by (auto simp: kind_tags_def)
  with assms show "cat_file L mode sha fs =
      (if t \<noteq> mode then Some ([], Some (TypeMismatch mode t)) else Some (dat, None))"
    by (simp add: cat_file_def)
next
  assume "mode \<notin> known_modes"
  then have "mode \<notin> set [ustr ''commit'', ustr ''tree'', ustr ''blob'']"
    "mode \<notin> set [ustr ''-s'', ustr ''--size'', ustr ''size'']"
    "mode \<notin> set [ustr ''-t'', ustr ''--type'', ustr ''type'']"
    "mode \<notin> set [ustr ''-p'', ustr ''--pretty'', ustr ''pretty'']"
    by (auto simp: known_modes_def)
  with assms show "cat_file L mode sha fs = Some ([], Some (UnexpectedMode mode))"
    by (simp only: cat_file_def sum.case prod.case if_False)
qed

lemma sample_modes:
  "ustr ''tree'' \<in> ustr ` kind_tags" "ustr ''blob'' \<in> ustr ` kind_tags"
  "ustr ''raw'' \<notin> known_modes" "ustr ''blob'' \<noteq> ustr ''tree''"
  by (simp_all add: kind_tags_def known_modes_def ustr_def)

theorem cat_file_exact_kind_witness:
  "read_object sample_lib (ustr ''09090909090909090909090909090909090909c2'') sample_store =
     Inr (ustr ''blob'', ''hi'')
   \<and> cat_file sample_lib (ustr ''tree'') (ustr ''09090909090909090909090909090909090909c2'')
         sample_store = Some ([], Some (TypeMismatch (ustr ''tree'') (ustr ''blob'')))
   \<and> cat_file sample_lib (ustr ''blob'') (ustr ''09090909090909090909090909090909090909c2'')
         sample_store = Some (''hi'', None)
   \<and> cat_file sample_lib (ustr ''raw'') (ustr ''09090909090909090909090909090909090909c2'')
         sample_store = Some ([], Some (UnexpectedMode (ustr ''raw'')))"
proof -
  note t = cat_file_exact_kind [OF sample_read_full]
  have a: "cat_file sample_lib (ustr ''tree'') (ustr ''09090909090909090909090909090909090909c2'')
         sample_store = Some ([], Some (TypeMismatch (ustr ''tree'') (ustr ''blob'')))"
    using t [of "ustr ''tree''"] sample_modes by simp
  have b: "cat_file sample_lib (ustr ''blob'') (ustr ''09090909090909090909090909090909090909c2'')
         sample_store = Some (''hi'', None)"
    using t [of "ustr ''blob''"] sample_modes by simp
  have c: "cat_file sample_lib (ustr ''raw'') (ustr ''09090909090909090909090909090909090909c2'')
         sample_store = Some ([], Some (UnexpectedMode (ustr ''raw'')))"
    using t [of "ustr ''raw''"] sample_modes by simp
  show ?thesis using sample_read_full a b c by (intro conjI)
qed

lemma index_of_takeWhile:
  "index_of c xs = Some i \<Longrightarrow> take i xs = takeWhile (\<lambda>x. x \<noteq> c) xs"
  by (induction xs arbitrary: i) (auto split: if_splits)

text \<open>
  Claim C2, amended. For bytes that contain a NUL byte, with \<open>h\<close> the bytes before the
  first one and \<open>p\<close> the bytes after it: the decoding raises \<^verbatim>\<open>ValueError\<close> (from the
  unpacking) exactly when \<open>h\<close> has no space byte; otherwise it decodes the bytes of \<open>h\<close>
  before its first space as UTF-8, raises \<^verbatim>\<open>UnicodeDecodeError\<close> when they are not, and
  else returns that kind with \<open>p\<close>. What follows the first space of \<open>h\<close>, the length
  token, is not looked at.
\<close>
theorem parse_object_decode:
  assumes "CHR 0x00 \<notin> set h"
  shows "parse_object (h @ CHR 0x00 # p) =
     (if CHR '' '' \<notin> set h then Inl UnpackError
      else case utf8_decode (takeWhile (\<lambda>c. c \<noteq> CHR '' '') h) of
             Inl e \<Rightarrow> Inl e
           | Inr t \<Rightarrow> Inr (t, p))"
proof -
  have f: "find_byte (h @ CHR 0x00 # p) (CHR 0x00) 0 = int (length h)"
    using assms by (rule find_first)
  have st: "slice_to (h @ CHR 0x00 # p) (int (length h)) = h"
    by (rule slice_to_append)
  have sf: "slice_from (h @ CHR 0x00 # p) (int (length h) + 1) = p"
    by (rule slice_from_append)
  show ?thesis
  proof (cases "index_of CHR '' '' h")
    case None
    then have "CHR '' '' \<notin> set h" by (simp add: index_of_None)
    with None show ?thesis
      unfolding parse_object_def f Let_def st sf by (simp add: split1_def)
  next
    case (Some i)
    then have "CHR '' '' \<in> set h" using index_of_None [of "CHR '' ''" h] by auto
    with Some index_of_takeWhile [OF Some] show ?thesis
      unfolding parse_object_def f Let_def st sf by (simp add: split1_def)
  qed
qed

theorem parse_object_decode_witness:
  "CHR 0x00 \<notin> set ''blob 2''
   \<and> parse_object (''blob 2'' @ CHR 0x00 # ''hi'') = Inr (ustr ''blob'', ''hi'')
   \<and> CHR 0x00 \<notin> set ''blob''
   \<and> parse_object (''blob'' @ CHR 0x00 # ''hi'') = Inl UnpackError"
proof -
  have n: "CHR 0x00 \<notin> set ''blob 2''" "CHR 0x00 \<notin> set ''blob''" by simp_all
  have a: "parse_object (''blob 2'' @ CHR 0x00 # ''hi'') = Inr (ustr ''blob'', ''hi'')"
    using parse_object_decode [OF n(1), of "''hi''"] by (simp add: utf8_decode_def ustr_def)
  have b: "parse_object (''blob'' @ CHR 0x00 # ''hi'') = Inl UnpackError"
    using parse_object_decode [OF n(2), of "''hi''"] by simp
  show ?thesis using n a b by (intro conjI)
qed

text \<open>
  The claim C2 as it is written fails: bytes without a NUL byte, a length token that is
  no number, and a header of three tokens are all decoded without an exception.
\<close>

theorem parse_object_counterexample:
  "CHR 0x00 \<notin> set ''blob x''
   \<and> parse_object ''blob x'' = Inr (ustr ''blob'', ''blob x'')
   \<and> parse_object (''blob abc'' @ [CHR 0x00] @ ''data'') = Inr (ustr ''blob'', ''data'')
   \<and> parse_object (''a b c'' @ [CHR 0x00] @ ''data'') = Inr (ustr ''a'', ''data'')"
  by (simp add: parse_object_def find_byte_def clip_def slice_to_def slice_from_def split1_def
        utf8_decode_def ustr_def)

section \<open>The tree decoder\<close>

lemma find_at:
  assumes "c \<notin> set xs"
  shows "find_byte (pre @ xs @ c # ys) c (int (length pre)) = int (length pre + length xs)"
  using assms by (simp add: find_byte_def clip_def index_of_append)

lemma find_none:
  assumes "c \<notin> set ys"
  shows "find_byte (pre @ ys) c (int (length pre)) = - 1"
proof -
  from assms have "index_of c ys = None" by (simp add: index_of_None)
  then show ?thesis by (simp add: find_byte_def clip_def)
qed

lemma slice_mid:
  "slice (pre @ xs @ ys) (int (length pre)) (int (length pre + length xs)) = xs"
  by (simp add: slice_def clip_def)

lemma tree_step_entry:
  assumes "CHR '' '' \<notin> set m" "CHR 0x00 \<notin> set n" "length s = 20"
  shows "tree_step (pre @ entry_bytes (m, n, s) @ rest) (int (length pre)) =
     (case utf8_decode n of
        Inl e \<Rightarrow> Raise e
      | Inr name \<Rightarrow>
          (case int_base8 m of
             Inl e \<Rightarrow> Raise e
           | Inr mode_int \<Rightarrow>
               Yield (mode_int, name, hex s) (int (length (pre @ entry_bytes (m, n, s))))))"
proof -
  let ?dat = "pre @ entry_bytes (m, n, s) @ rest"
  let ?j = "int (length pre + length m)"
  let ?k = "int (length (pre @ m @ '' '') + length n)"
  have d1: "?dat = pre @ m @ CHR '' '' # (n @ CHR 0x00 # s @ rest)"
    by (simp add: entry_bytes_def)
  have d2: "?dat = (pre @ m @ '' '') @ n @ CHR 0x00 # (s @ rest)"
    by (simp add: entry_bytes_def)
  have d3: "?dat = (pre @ m @ '' '' @ n @ [CHR 0x00]) @ s @ rest"
    by (simp add: entry_bytes_def)
  have d4: "?dat = pre @ m @ (CHR '' '' # n @ CHR 0x00 # s @ rest)"
    by (simp add: entry_bytes_def)
  have lt: "int (length pre) < int (length ?dat)" by (simp add: entry_bytes_def)
  have j: "find_byte ?dat CHR '' '' (int (length pre)) = ?j"
    unfolding d1 using assms(1) by (rule find_at)
  have j1: "?j + 1 = int (length (pre @ m @ '' ''))" by simp
  have k1: "?k + 1 = int (length (pre @ m @ '' '' @ n @ [CHR 0x00]))" by simp
  have k21: "?k + 21 = int (length (pre @ m @ '' '' @ n @ [CHR 0x00]) + length s)"
    using assms(3) by simp
  have k: "find_byte ?dat (CHR 0x00) (?j + 1) = ?k"
    unfolding d2 j1 using assms(2) by (rule find_at)
  have mode: "slice ?dat (int (length pre)) ?j = m"
    unfolding d4 by (rule slice_mid)
  have name: "slice ?dat (?j + 1) ?k = n"
    unfolding d2 j1 by (rule slice_mid)
  have sha: "slice ?dat (?k + 1) (?k + 21) = s"
    unfolding d3 k1 k21 by (rule slice_mid)
  have nxt: "?k + 21 = int (length (pre @ entry_bytes (m, n, s)))"
    using assms(3) by (simp add: entry_bytes_def)
  have jn: "?j \<noteq> - 1" by simp
  show ?thesis
    unfolding tree_step_def Let_def j k mode name sha
    unfolding nxt
    using lt jn by (simp only: if_True if_False)
qed

lemma tree_step_junk:
  assumes "CHR '' '' \<notin> set junk"
  shows "tree_step (pre @ junk) (int (length pre)) = Stop"
  using find_none [OF assms, of pre] by (simp add: tree_step_def)

lemma read_tree_from_entries:
  assumes "list_all entry_shape es" "CHR '' '' \<notin> set junk"
  shows "read_tree_from (pre @ tree_bytes es @ junk) (int (length pre)) = Some (entries_result es)"
  using assms(1)
proof (induction es arbitrary: pre)
  case Nil
  show ?case
    by (subst read_tree_from.simps) (simp add: tree_bytes_def tree_step_junk [OF assms(2)])
next
  case (Cons e es)
  obtain m n s where e: "e = (m, n, s)" by (cases e)
  from Cons.prems have "entry_shape e" and rest: "list_all entry_shape es"
    by simp_all
  with e have sh: "CHR '' '' \<notin> set m" "CHR 0x00 \<notin> set n" "length s = 20"
    by (simp_all add: entry_shape_def)
  let ?dat = "pre @ tree_bytes ((m, n, s) # es) @ junk"
  let ?next = "int (length (pre @ entry_bytes (m, n, s)))"
  have dat: "?dat = pre @ entry_bytes (m, n, s) @ (tree_bytes es @ junk)"
    by (simp add: tree_bytes_def)
  have dat': "?dat = (pre @ entry_bytes (m, n, s)) @ tree_bytes es @ junk"
    by (simp add: tree_bytes_def)
  have ih: "read_tree_from ?dat ?next = Some (entries_result es)"
    unfolding dat' using rest by (rule Cons.IH)
  have st: "tree_step ?dat (int (length pre)) =
     (case utf8_decode n of
        Inl e \<Rightarrow> Raise e
      | Inr name \<Rightarrow>
          (case int_base8 m of
             Inl e \<Rightarrow> Raise e
           | Inr mode_int \<Rightarrow> Yield (mode_int, name, hex s) ?next))"
    unfolding dat using sh by (rule tree_step_entry)
  have "read_tree_from ?dat (int (length pre)) = Some (entries_result ((m, n, s) # es))"
  proof (cases "utf8_decode n")
    case (Inl x)
    with st show ?thesis by (subst read_tree_from.simps) simp
  next
    case name: (Inr name)
    show ?thesis
    proof (cases "int_base8 m")
      case (Inl x)
      with st name show ?thesis by (subst read_tree_from.simps) simp
    next
      case (Inr v)
      with st name ih show ?thesis by (subst read_tree_from.simps) simp
    qed
  qed
  then show ?case by (simp only: e)
qed

text \<open>
  Claim C3, amended. For a payload made of entries in the format (a mode without a
  space, a space, a name without a NUL, a NUL, 20 bytes) and then trailing bytes that
  have no space byte, \<^verbatim>\<open>read_tree\<close> returns: it yields the entries in order and stops
  at the trailing bytes without an exception, so that these are dropped silently. The
  exceptions it raises are the \<^verbatim>\<open>UnicodeDecodeError\<close> of a name and the \<^verbatim>\<open>ValueError\<close> of
  a mode, at the entry that has it, after the entries before it.
\<close>
theorem read_tree_entries:
  assumes "list_all entry_shape es" "CHR '' '' \<notin> set junk"
  shows "read_tree (tree_bytes es @ junk) = Some (entries_result es)"
  using read_tree_from_entries [OF assms, of "[]"] by (simp add: read_tree_def)

lemma sample_int: "int_base8 ''100644'' = Inr 33188" "int_base8 ''40000'' = Inr 16384"
  by (simp_all add: int_base8_def strip_sign_def strip_prefix_def is_space_def oct_digit_def
        oct_value_def)

lemma sample_shape:
  "list_all entry_shape
     [(''100644'', ''a.txt'', ''01234567890123456789''), (''40000'', ''dir'', ''abcdefghijklmnopqrst'')]"
  by (simp add: entry_shape_def)

lemma sample_entries:
  "entries_result
     [(''100644'', ''a.txt'', ''01234567890123456789''), (''40000'', ''dir'', ''abcdefghijklmnopqrst'')] =
   ([(33188, ustr ''a.txt'', ustr ''3031323334353637383930313233343536373839''),
     (16384, ustr ''dir'', ustr ''6162636465666768696a6b6c6d6e6f7071727374'')], None)"
  by (simp add: int_base8_def strip_sign_def strip_prefix_def is_space_def oct_digit_def
        oct_value_def utf8_decode_def hex_def hex_digit_def ustr_def)

lemma sample_no_space: "read_tree ''100644'' = Some ([], None)"
  unfolding read_tree_def
  by (subst read_tree_from.simps) (simp add: tree_step_def find_byte_def clip_def)

lemma sample_short_sha: "read_tree (''100644 a'' @ [CHR 0x00] @ ''abc'') = Some ([(33188, ustr ''a'', ustr ''616263'')], None)"
proof -
  have 1: "tree_step (''100644 a'' @ [CHR 0x00] @ ''abc'') 0 = Yield (33188, ustr ''a'', ustr ''616263'') 29"
    by (simp add: tree_step_def find_byte_def clip_def slice_def int_base8_def strip_sign_def strip_prefix_def is_space_def oct_digit_def
        oct_value_def utf8_decode_def hex_def hex_digit_def ustr_def)
  have 2: "tree_step (''100644 a'' @ [CHR 0x00] @ ''abc'') 29 = Stop"
    by (simp add: tree_step_def)
  show ?thesis
    unfolding read_tree_def
    by (subst read_tree_from.simps, simp only: 1 step.case, subst read_tree_from.simps, simp only: 2 step.case) simp
qed

lemma sample_no_nul: "read_tree ''100644 a.txt'' = Some ([(33188, ustr ''a.tx'', ustr ''31303036343420612e747874'')], None)"
proof -
  have 1: "tree_step ''100644 a.txt'' 0 = Yield (33188, ustr ''a.tx'', ustr ''31303036343420612e747874'') 20"
    by (simp add: tree_step_def find_byte_def clip_def slice_def int_base8_def strip_sign_def strip_prefix_def is_space_def oct_digit_def
        oct_value_def utf8_decode_def hex_def hex_digit_def ustr_def)
  have 2: "tree_step ''100644 a.txt'' 20 = Stop"
    by (simp add: tree_step_def)
  show ?thesis
    unfolding read_tree_def
    by (subst read_tree_from.simps, simp only: 1 step.case, subst read_tree_from.simps, simp only: 2 step.case) simp
qed

theorem read_tree_entries_witness:
  "list_all entry_shape
     [(''100644'', ''a.txt'', ''01234567890123456789''), (''40000'', ''dir'', ''abcdefghijklmnopqrst'')]
   \<and> CHR '' '' \<notin> set ''100644''
   \<and> read_tree
        (tree_bytes [(''100644'', ''a.txt'', ''01234567890123456789''),
                     (''40000'', ''dir'', ''abcdefghijklmnopqrst'')] @ ''100644'') =
       Some ([(33188, ustr ''a.txt'', ustr ''3031323334353637383930313233343536373839''),
              (16384, ustr ''dir'', ustr ''6162636465666768696a6b6c6d6e6f7071727374'')], None)"
proof -
  have j: "CHR '' '' \<notin> set ''100644''" by simp
  note t = read_tree_entries [OF sample_shape j]
  show ?thesis using sample_shape j t by (simp only: sample_entries simp_thms)
qed

text \<open>
  The claim C3 as it is written fails: a payload without a space, one with 3 bytes
  after the NUL, and one without a NUL are all decoded without an exception.
\<close>

theorem read_tree_counterexample:
  "CHR '' '' \<notin> set ''100644''
   \<and> read_tree ''100644'' = Some ([], None)
   \<and> read_tree (''100644 a'' @ [CHR 0x00] @ ''abc'') =
       Some ([(33188, ustr ''a'', ustr ''616263'')], None)
   \<and> CHR 0x00 \<notin> set ''100644 a.txt''
   \<and> read_tree ''100644 a.txt'' =
       Some ([(33188, ustr ''a.tx'', ustr ''31303036343420612e747874'')], None)"
  using sample_no_space sample_short_sha sample_no_nul by simp

subsection \<open>A listing that does not end, and the printed lines\<close>

text \<open>
  With no NUL byte after the space, \<^verbatim>\<open>find\<close> answers -1 and the cursor is set to 20,
  where the same entry is decoded again: the generator yields without end.
\<close>

lemma endless_steps:
  "tree_step (''111111111111111111117 '') 0 =
     Yield (1317624576693539407, [], ustr ''3131313131313131313131313131313131313131'') 20"
  "tree_step (''111111111111111111117 '') 20 =
     Yield (7, [], ustr ''3131313131313131313131313131313131313131'') 20"
  by (simp_all add: tree_step_def find_byte_def clip_def slice_def int_base8_def strip_sign_def
        strip_prefix_def is_space_def oct_digit_def oct_value_def utf8_decode_def hex_def
        hex_digit_def ustr_def)

lemma read_tree_from_endless:
  "read_tree_from ''111111111111111111117 '' 20 = None"
proof (rule ccontr)
  let ?D = "''111111111111111111117 ''"
  assume "read_tree_from ?D 20 \<noteq> None"
  then obtain r where r: "read_tree_from ?D 20 = Some r" by auto
  have "\<not> (?D = ?D \<and> (20::int) = 20)"
  proof (rule read_tree_from.raw_induct [where P = "\<lambda>dat i y. \<not> (dat = ?D \<and> i = 20)", OF _ r])
    fix f dat i y
    assume ih: "\<And>dat i y. f dat i = Some y \<Longrightarrow> \<not> (dat = ?D \<and> i = 20)"
      and eq: "(case tree_step dat i of
                  Stop \<Rightarrow> Some ([], None)
                | Raise e \<Rightarrow> Some ([], Some e)
                | Yield ent i' \<Rightarrow> Option.bind (f dat i') (\<lambda>r. Some (ent # fst r, snd r))) = Some y"
    show "\<not> (dat = ?D \<and> i = 20)"
    proof
      assume d: "dat = ?D \<and> i = 20"
      with eq endless_steps(2) obtain r' where "f ?D 20 = Some r'"
        by (auto simp: bind_eq_Some_conv)
      from ih [OF this] show False by simp
    qed
  qed
  then show False by simp
qed

lemma read_tree_endless: "read_tree (''111111111111111111117 '') = None"
  unfolding read_tree_def
  by (subst read_tree_from.simps) (simp add: endless_steps(1) read_tree_from_endless)

lemma sample_lines:
  "entry_line (33188, ustr ''a.txt'', ustr ''3031323334353637383930313233343536373839'') =
     Inr (ustr ''100644 blob 3031323334353637383930313233343536373839'' @ [9] @ ustr ''a.txt'')"
  "entry_line (16384, ustr ''dir'', ustr ''6162636465666768696a6b6c6d6e6f7071727374'') =
     Inr (ustr ''040000 tree 6162636465666768696a6b6c6d6e6f7071727374'' @ [9] @ ustr ''dir'')"
  by (simp_all add: entry_line_def format_06o_def zero_pad_def octal.simps S_ISDIR_def ustr_def)

text \<open>
  Printed, the listing that does not end is ended by its first entry, whose mode is
  no \<^verbatim>\<open>mode_t\<close>.
\<close>

lemma print_tree_overflow:
  "print_tree_from ''111111111111111111117 '' 0 = Some ([], Some OverflowError)"
  by (subst print_tree_from.simps)
     (simp add: endless_steps(1) entry_line_def S_ISDIR_def)

end
